theory Spec2Isabelle
  imports Main "HOL-Library.AList"
begin

section \<open>Common values\<close>

text \<open>
  Timestamps are the millisecond readings of \<open>Date.now()\<close>; every reading is an argument of
  the operation that takes it, so a clock that jumps backwards is an admissible input.
  Strings produced from \<open>Math.random()\<close> or \<open>crypto.getRandomValues\<close> (token ids, token
  values, user ids) are arguments too: the model does not fix what the generator returns.
  Free-form objects (token payloads, event data) are key/value lists.
\<close>

type_synonym timestamp = int
type_synonym object = "(string \<times> string) list"

text \<open>Every \<open>throw new Error(...)\<close> of the sources, and the \<open>TypeError\<close> of a method call on \<open>null\<close>.\<close>

datatype error =
    NotInitialized string
  | MachineNotFound string
  | InvalidState string
  | TypeError

fun message :: "error \<Rightarrow> string" where
  "message (NotInitialized svc) = ''['' @ svc @ ''] Not initialized''"
| "message (MachineNotFound mid) = ''[MachinesAdapter] Machine not found: '' @ mid"
| "message (InvalidState st) = ''[MachinesAdapter] Invalid state: '' @ st"
| "message TypeError = ''TypeError''"

section \<open>Token Service\<close>

record token =
  t_id :: string
  t_type :: string
  t_value :: string
  t_payload :: object
  t_createdAt :: timestamp
  t_expiresAt :: timestamp
  t_valid :: bool

text \<open>The \<open>tokens\<close> Map keeps insertion order; it is an association list with distinct keys.\<close>

record tokenService =
  tokens :: "(string \<times> token) list"
  ts_initialized :: bool

definition newTokenService :: tokenService where
  "newTokenService = \<lparr>tokens = [], ts_initialized = False\<rparr>"

text \<open>\<open>initialize\<close>: a second call warns and returns true without clearing anything.\<close>

definition ts_initialize :: "tokenService \<Rightarrow> bool \<times> tokenService" where
  "ts_initialize s =
     (if ts_initialized s then (True, s)
      else (True, s\<lparr>tokens := [], ts_initialized := True\<rparr>))"

text \<open>The object \<open>createToken\<close> returns: \<open>{id, value, type, expiresAt}\<close>.\<close>

record tokenHandle =
  h_id :: string
  h_value :: string
  h_type :: string
  h_expiresAt :: timestamp

text \<open>
  \<open>createToken(type, payload, expiresIn)\<close>. \<open>gid\<close> is what \<open>_generateTokenId()\<close> returned,
  \<open>gval\<close> what \<open>_generateTokenValue()\<close> returned, \<open>tc\<close> and \<open>te\<close> the two clock readings
  of \<open>createdAt\<close> and \<open>expiresAt\<close>. \<open>type || 'generic'\<close> replaces the empty string.
\<close>

definition createToken ::
  "string \<Rightarrow> string \<Rightarrow> timestamp \<Rightarrow> timestamp \<Rightarrow> tokenService \<Rightarrow> string \<Rightarrow> object \<Rightarrow> int
     \<Rightarrow> error + (tokenHandle \<times> tokenService)" where
  "createToken gid gval tc te s ty payload expiresIn =
     (if \<not> ts_initialized s then Inl (NotInitialized ''TokenService'')
      else
        let tk = \<lparr>t_id = gid,
                  t_type = (if ty = [] then ''generic'' else ty),
                  t_value = gval,
                  t_payload = payload,
                  t_createdAt = tc,
                  t_expiresAt = te + expiresIn,
                  t_valid = True\<rparr>
        in Inr (\<lparr>h_id = t_id tk, h_value = t_value tk, h_type = t_type tk,
                  h_expiresAt = t_expiresAt tk\<rparr>,
                s\<lparr>tokens := AList.update gid tk (tokens s)\<rparr>))"

text \<open>
  \<open>validateToken(tokenId)\<close> at clock reading \<open>now\<close>: unknown id gives false; a reading past
  \<open>expiresAt\<close> writes \<open>valid = false\<close> into the stored token and gives false; otherwise
  the stored flag is returned.
\<close>

definition validateToken ::
  "timestamp \<Rightarrow> tokenService \<Rightarrow> string \<Rightarrow> error + (bool \<times> tokenService)" where
  "validateToken now s tokenId =
     (if \<not> ts_initialized s then Inl (NotInitialized ''TokenService'')
      else case map_of (tokens s) tokenId of
        None \<Rightarrow> Inr (False, s)
      | Some tk \<Rightarrow>
          if now > t_expiresAt tk
          then Inr (False, s\<lparr>tokens := AList.update tokenId (tk\<lparr>t_valid := False\<rparr>) (tokens s)\<rparr>)
          else Inr (t_valid tk, s))"

text \<open>The snapshot \<open>getToken\<close> returns, \<open>valid\<close> recomputed by \<open>validateToken\<close>.\<close>

record tokenInfo =
  i_id :: string
  i_type :: string
  i_payload :: object
  i_createdAt :: timestamp
  i_expiresAt :: timestamp
  i_valid :: bool

definition getToken ::
  "timestamp \<Rightarrow> tokenService \<Rightarrow> string \<Rightarrow> error + (tokenInfo option \<times> tokenService)" where
  "getToken now s tokenId =
     (if \<not> ts_initialized s then Inl (NotInitialized ''TokenService'')
      else case map_of (tokens s) tokenId of
        None \<Rightarrow> Inr (None, s)
      | Some tk \<Rightarrow>
          (case validateToken now s tokenId of
             Inl e \<Rightarrow> Inl e
           | Inr (v, s') \<Rightarrow>
               Inr (Some \<lparr>i_id = t_id tk, i_type = t_type tk, i_payload = t_payload tk,
                          i_createdAt = t_createdAt tk, i_expiresAt = t_expiresAt tk,
                          i_valid = v\<rparr>, s')))"

definition revokeToken :: "tokenService \<Rightarrow> string \<Rightarrow> error + (bool \<times> tokenService)" where
  "revokeToken s tokenId =
     (if \<not> ts_initialized s then Inl (NotInitialized ''TokenService'')
      else case map_of (tokens s) tokenId of
        None \<Rightarrow> Inr (False, s)
      | Some tk \<Rightarrow>
          Inr (True, s\<lparr>tokens := AList.update tokenId (tk\<lparr>t_valid := False\<rparr>) (tokens s)\<rparr>))"

text \<open>\<open>cleanupExpiredTokens()\<close>: one clock reading, every token past it is deleted and counted.\<close>

definition cleanupExpiredTokens ::
  "timestamp \<Rightarrow> tokenService \<Rightarrow> error + (nat \<times> tokenService)" where
  "cleanupExpiredTokens now s =
     (if \<not> ts_initialized s then Inl (NotInitialized ''TokenService'')
      else Inr (length (filter (\<lambda>(k, tk). now > t_expiresAt tk) (tokens s)),
                s\<lparr>tokens := filter (\<lambda>(k, tk). \<not> now > t_expiresAt tk) (tokens s)\<rparr>))"

text \<open>
  A caller's later use of the service: any of its operations, each with its own clock
  readings and generator results. An operation that raises leaves the service as it was.
\<close>

datatype tokenOp =
    OpInitialize
  | OpCreate string string timestamp timestamp string object int
  | OpValidate timestamp string
  | OpGet timestamp string
  | OpRevoke string
  | OpCleanup timestamp

fun applyOp :: "tokenService \<Rightarrow> tokenOp \<Rightarrow> tokenService" where
  "applyOp s OpInitialize = snd (ts_initialize s)"
| "applyOp s (OpCreate gid gval tc te ty payload expiresIn) =
     (case createToken gid gval tc te s ty payload expiresIn of Inl e \<Rightarrow> s | Inr (h, s') \<Rightarrow> s')"
| "applyOp s (OpValidate now tokenId) =
     (case validateToken now s tokenId of Inl e \<Rightarrow> s | Inr (b, s') \<Rightarrow> s')"
| "applyOp s (OpGet now tokenId) =
     (case getToken now s tokenId of Inl e \<Rightarrow> s | Inr (r, s') \<Rightarrow> s')"
| "applyOp s (OpRevoke tokenId) =
     (case revokeToken s tokenId of Inl e \<Rightarrow> s | Inr (b, s') \<Rightarrow> s')"
| "applyOp s (OpCleanup now) =
     (case cleanupExpiredTokens now s of Inl e \<Rightarrow> s | Inr (n, s') \<Rightarrow> s')"

text \<open>The id a \<open>createToken\<close> call generated, if the operation is one.\<close>

fun createdId :: "tokenOp \<Rightarrow> string option" where
  "createdId (OpCreate gid gval tc te ty payload expiresIn) = Some gid"
| "createdId _ = None"

definition runOps :: "tokenService \<Rightarrow> tokenOp list \<Rightarrow> tokenService" where
  "runOps s ops = foldl applyOp s ops"

text \<open>
  A token id is dead in a store when no entry stored under it has \<open>valid = true\<close>
  (in particular when the store has no entry for it).
\<close>

definition revoked :: "tokenService \<Rightarrow> string \<Rightarrow> bool" where
  "revoked s tokenId = (\<forall>(k, tk) \<in> set (tokens s). k = tokenId \<longrightarrow> \<not> t_valid tk)"

text \<open>A store after \<open>initialize()\<close> and one \<open>createToken('session', {}, 100)\<close> at clock reading 0.\<close>

definition sampleStore :: tokenService where
  "sampleStore =
     runOps newTokenService [OpInitialize, OpCreate ''tok_a'' ''00ff'' 0 0 ''session'' [] 100]"

definition sampleToken :: token where
  "sampleToken = \<lparr>t_id = ''tok_a'', t_type = ''session'', t_value = ''00ff'', t_payload = [],
                   t_createdAt = 0, t_expiresAt = 100, t_valid = True\<rparr>"

section \<open>Auth Service\<close>

text \<open>
  A user object. \<open>authenticate\<close> fills all four fields; \<open>_restoreSession\<close> copies three of
  them from a token payload, where a missing key reads as \<open>undefined\<close> (\<open>None\<close>).
\<close>

record user =
  u_id :: "string option"
  u_identifier :: "string option"
  u_authMethod :: "string option"
  u_authenticatedAt :: "timestamp option"

text \<open>
  \<open>logout\<close> compares user objects with \<open>===\<close>, that is by identity. User objects therefore
  live in a store: \<open>heap\<close> lists the objects in the order of their allocation and a
  reference is the position of its object.
\<close>

type_synonym ref = nat

record session =
  se_user :: ref
  se_tokenId :: string
  se_createdAt :: timestamp

text \<open>
  The service. \<open>tokenService\<close> is \<open>null\<close> (\<open>None\<close>) until \<open>initialize\<close> stores its argument.
  \<open>localStorage\<close> is \<open>None\<close> where the environment has none, and otherwise holds the item
  stored under \<open>'pewpi_session'\<close>, if any.
\<close>

record authService =
  as_initialized :: bool
  currentUser :: "ref option"
  sessions :: "(string \<times> session) list"
  tokenService :: "tokenService option"
  heap :: "user list"
  localStorage :: "string option option"

definition newAuthService :: "string option option \<Rightarrow> authService" where
  "newAuthService storage =
     \<lparr>as_initialized = False, currentUser = None, sessions = [], tokenService = None,
      heap = [], localStorage = storage\<rparr>"

text \<open>
  \<open>_restoreSession()\<close>, with the clock readings of its \<open>validateToken\<close> and \<open>getToken\<close>
  calls. An exception inside is caught and only logged.
\<close>

definition restoreSession :: "timestamp \<Rightarrow> timestamp \<Rightarrow> authService \<Rightarrow> authService" where
  "restoreSession now1 now2 s =
     (case localStorage s of
        None \<Rightarrow> s
      | Some None \<Rightarrow> s
      | Some (Some tokenId) \<Rightarrow>
          (case tokenService s of
             None \<Rightarrow> s
           | Some ts \<Rightarrow>
               if tokenId = [] then s
               else (case validateToken now1 ts tokenId of
                  Inl e \<Rightarrow> s
                | Inr (False, ts1) \<Rightarrow> s\<lparr>tokenService := Some ts1\<rparr>
                | Inr (True, ts1) \<Rightarrow>
                    (case getToken now2 ts1 tokenId of
                       Inl e \<Rightarrow> s\<lparr>tokenService := Some ts1\<rparr>
                     | Inr (None, ts2) \<Rightarrow> s\<lparr>tokenService := Some ts2\<rparr>
                     | Inr (Some info, ts2) \<Rightarrow>
                         s\<lparr>tokenService := Some ts2,
                           heap := heap s @
                             [\<lparr>u_id = map_of (i_payload info) ''userId'',
                               u_identifier = map_of (i_payload info) ''identifier'',
                               u_authMethod = map_of (i_payload info) ''method'',
                               u_authenticatedAt = None\<rparr>],
                           currentUser := Some (length (heap s))\<rparr>))))"

definition as_initialize ::
  "timestamp \<Rightarrow> timestamp \<Rightarrow> authService \<Rightarrow> tokenService option \<Rightarrow> bool \<times> authService" where
  "as_initialize now1 now2 s ts =
     (if as_initialized s then (True, s)
      else (True, (restoreSession now1 now2 (s\<lparr>tokenService := ts\<rparr>))\<lparr>as_initialized := True\<rparr>))"

text \<open>
  \<open>_validateCredentials\<close>. A string is the list of its code units, so \<open>length\<close> is the
  \<open>.length\<close> of the source and \<open>startsWith('tok_')\<close> compares the first four of them.
\<close>

definition validateCredentials :: "string \<Rightarrow> string \<Rightarrow> string \<Rightarrow> bool" where
  "validateCredentials identifier credential method =
     (if identifier = [] \<or> credential = [] then False
      else if method = ''wallet'' then length credential \<ge> 32
      else if method = ''token'' then take 4 credential = ''tok_''
      else length credential \<ge> 8)"

text \<open>
  What one \<open>authenticate\<close> call reads from its environment: the generated user id, the
  clock at \<open>authenticatedAt\<close>, the four inputs of \<open>createToken\<close>, the clock at the session's
  \<open>createdAt\<close>.
\<close>

record draws =
  d_userId :: string
  d_authenticatedAt :: timestamp
  d_tokenId :: string
  d_tokenValue :: string
  d_tokenCreatedAt :: timestamp
  d_tokenNow :: timestamp
  d_sessionCreatedAt :: timestamp

datatype authResult =
    AuthSuccess ref user tokenHandle
  | AuthFailure string

text \<open>
  \<open>authenticate(identifier, credential, method)\<close>. Everything after the initialization
  check runs inside \<open>try\<close>: an exception of \<open>createToken\<close> becomes a failure result
  carrying its message. Calls of the service are taken one after the other: nothing else
  runs during the pause of \<open>_validateCredentials\<close>.
\<close>

definition authenticate ::
  "draws \<Rightarrow> authService \<Rightarrow> string \<Rightarrow> string \<Rightarrow> string \<Rightarrow> error + (authResult \<times> authService)" where
  "authenticate d s identifier credential method =
     (if \<not> as_initialized s then Inl (NotInitialized ''AuthService'')
      else if \<not> validateCredentials identifier credential method
      then Inr (AuthFailure ''Invalid credentials'', s)
      else
        let usr = \<lparr>u_id = Some (d_userId d), u_identifier = Some identifier,
                   u_authMethod = Some method, u_authenticatedAt = Some (d_authenticatedAt d)\<rparr>;
            r = length (heap s)
        in case tokenService s of
             None \<Rightarrow> Inr (AuthFailure (message TypeError), s)
           | Some ts \<Rightarrow>
               (case createToken (d_tokenId d) (d_tokenValue d) (d_tokenCreatedAt d) (d_tokenNow d) ts
                       ''session''
                       [(''userId'', d_userId d), (''identifier'', identifier), (''method'', method)]
                       86400000 of
                  Inl e \<Rightarrow> Inr (AuthFailure (message e), s)
                | Inr (sessionToken, ts') \<Rightarrow>
                    Inr (AuthSuccess r usr sessionToken,
                         s\<lparr>heap := heap s @ [usr],
                           tokenService := Some ts',
                           sessions := AList.update (h_id sessionToken)
                              \<lparr>se_user = r, se_tokenId = h_id sessionToken,
                               se_createdAt = d_sessionCreatedAt d\<rparr> (sessions s),
                           currentUser := Some r,
                           localStorage := map_option (\<lambda>item. Some (h_id sessionToken))
                                             (localStorage s)\<rparr>)))"

definition validateSession ::
  "timestamp \<Rightarrow> authService \<Rightarrow> string \<Rightarrow> error + (bool \<times> authService)" where
  "validateSession now s tokenId =
     (if \<not> as_initialized s then Inl (NotInitialized ''AuthService'')
      else case map_of (sessions s) tokenId of
        None \<Rightarrow> Inr (False, s)
      | Some se \<Rightarrow>
          (case tokenService s of
             None \<Rightarrow> Inl TypeError
           | Some ts \<Rightarrow>
               (case validateToken now ts tokenId of
                  Inl e \<Rightarrow> Inl e
                | Inr (b, ts') \<Rightarrow> Inr (b, s\<lparr>tokenService := Some ts'\<rparr>))))"

definition getCurrentUser :: "authService \<Rightarrow> error + ref option" where
  "getCurrentUser s =
     (if \<not> as_initialized s then Inl (NotInitialized ''AuthService'') else Inr (currentUser s))"

text \<open>
  The loop of \<open>logout\<close> over the entries of the session Map: an entry whose user is the
  object \<open>cu\<close> refers to has its token revoked and is deleted. The flag is \<open>False\<close> when a
  call inside raised; the \<open>catch\<close> then ends \<open>logout\<close> with what was done so far.
\<close>

fun revokeSessions ::
  "ref option \<Rightarrow> (string \<times> session) list \<Rightarrow> authService \<Rightarrow> bool \<times> authService" where
  "revokeSessions cu [] s = (True, s)"
| "revokeSessions cu ((tokenId, se) # rest) s =
     (if Some (se_user se) = cu then
        (case tokenService s of
           None \<Rightarrow> (False, s)
         | Some ts \<Rightarrow>
             (case revokeToken ts tokenId of
                Inl e \<Rightarrow> (False, s)
              | Inr (b, ts') \<Rightarrow>
                  revokeSessions cu rest
                    (s\<lparr>tokenService := Some ts',
                      sessions := AList.delete tokenId (sessions s)\<rparr>)))
      else revokeSessions cu rest s)"

definition logout :: "authService \<Rightarrow> error + (bool \<times> authService)" where
  "logout s =
     (if \<not> as_initialized s then Inl (NotInitialized ''AuthService'')
      else case revokeSessions (currentUser s) (sessions s) s of
        (False, s') \<Rightarrow> Inr (False, s')
      | (True, s') \<Rightarrow>
          Inr (True, s'\<lparr>currentUser := None,
                        localStorage := map_option (\<lambda>item. None) (localStorage s')\<rparr>))"

text \<open>
  An initialized service without \<open>localStorage\<close>, wired to an initialized token service,
  and the environment of an \<open>authenticate\<close> call at clock reading 1000.
\<close>

definition sampleAuth :: authService where
  "sampleAuth =
     snd (as_initialize 0 0 (newAuthService None) (Some (snd (ts_initialize newTokenService))))"

definition sampleDraws :: "string \<Rightarrow> string \<Rightarrow> draws" where
  "sampleDraws uid tid =
     \<lparr>d_userId = uid, d_authenticatedAt = 1000, d_tokenId = tid, d_tokenValue = ''ab'',
      d_tokenCreatedAt = 1000, d_tokenNow = 1000, d_sessionCreatedAt = 1000\<rparr>"

section \<open>Machines Adapter\<close>

text \<open>
  A state name is a string, or \<open>undefined\<close> (\<open>None\<close>) when the configuration gave none;
  used as a property key, \<open>undefined\<close> reads the key \<open>'undefined'\<close>.
\<close>

type_synonym stateName = "string option"

definition key :: "stateName \<Rightarrow> string" where
  "key st = (case st of None \<Rightarrow> ''undefined'' | Some k \<Rightarrow> k)"

text \<open>
  An action of a transition: a function called with \<open>(machine.context, eventData)\<close>, which
  may change the context object and may raise (the flag), a string that is only logged,
  or any other value, which is skipped. The function's result is its effect on the
  context; it does not call back into the adapter.
\<close>

datatype action =
    ActFn "object \<Rightarrow> object \<Rightarrow> bool \<times> object"
  | ActTag string
  | ActOther

text \<open>
  An entry of a state's \<open>on\<close> table: a target state name, or an object with \<open>target\<close> and
  optional \<open>actions\<close> (a single action is the list of that action).
\<close>

datatype transitionEntry =
    TString string
  | TObject stateName "action list option"

record stateConfig =
  sc_on :: "(string \<times> transitionEntry) list option"

record machine =
  m_id :: string
  m_name :: string
  m_initialState :: stateName
  m_currentState :: stateName
  m_states :: "string \<rightharpoonup> stateConfig"
  m_context :: object
  m_createdAt :: timestamp

record config =
  c_name :: "string option"
  c_initialState :: stateName
  c_states :: "(string \<rightharpoonup> stateConfig) option"
  c_context :: "object option"

record transitionRecord =
  tr_machineId :: string
  tr_from :: stateName
  tr_to :: stateName
  tr_event :: string
  tr_eventData :: object
  tr_timestamp :: timestamp

record machinesAdapter =
  ma_initialized :: bool
  machines :: "string \<rightharpoonup> machine"
  states :: "string \<rightharpoonup> stateName"
  transitions :: "string \<rightharpoonup> transitionRecord list"

definition newMachinesAdapter :: machinesAdapter where
  "newMachinesAdapter =
     \<lparr>ma_initialized = False, machines = Map.empty, states = Map.empty, transitions = Map.empty\<rparr>"

definition ma_initialize :: "machinesAdapter \<Rightarrow> bool \<times> machinesAdapter" where
  "ma_initialize s =
     (if ma_initialized s then (True, s)
      else (True, \<lparr>ma_initialized = True, machines = Map.empty, states = Map.empty,
                   transitions = Map.empty\<rparr>))"

text \<open>
  The configuration objects (\<open>states\<close> and the \<open>on\<close> table of a state) are ordinary
  objects, written as literals or parsed from JSON. A property read \<open>obj[name]\<close> that finds
  no own property continues in \<open>Object.prototype\<close>. What it finds there is a function, or
  for \<open>__proto__\<close> the prototype object itself: a truthy value that is not a string and
  has no property \<open>on\<close>, \<open>target\<close> or \<open>actions\<close>.
\<close>

definition objectPrototype :: "string list" where
  "objectPrototype =
     [''constructor'', ''toString'', ''toLocaleString'', ''valueOf'', ''hasOwnProperty'',
      ''isPrototypeOf'', ''propertyIsEnumerable'', ''__defineGetter__'', ''__defineSetter__'',
      ''__lookupGetter__'', ''__lookupSetter__'', ''__proto__'']"

datatype 'a property = Own 'a | Inherited | Undefined

definition getProperty :: "(string \<rightharpoonup> 'a) \<Rightarrow> string \<Rightarrow> 'a property" where
  "getProperty own name =
     (case own name of
        Some v \<Rightarrow> Own v
      | None \<Rightarrow> if name \<in> set objectPrototype then Inherited else Undefined)"

text \<open>
  \<open>_getAvailableTransitions\<close>: \<open>Object.keys\<close> of the current state's \<open>on\<close> table, which lists
  own properties only.
\<close>

definition getAvailableTransitions :: "machinesAdapter \<Rightarrow> string \<Rightarrow> string list" where
  "getAvailableTransitions s machineId =
     (case machines s machineId of
        None \<Rightarrow> []
      | Some m \<Rightarrow>
          (case getProperty (m_states m) (key (m_currentState m)) of
             Own stateConfig \<Rightarrow>
               (case sc_on stateConfig of None \<Rightarrow> [] | Some tbl \<Rightarrow> map fst tbl)
           | _ \<Rightarrow> []))"

record machineView =
  v_id :: string
  v_name :: string
  v_currentState :: stateName
  v_context :: object
  v_availableTransitions :: "string list"

definition getMachine :: "machinesAdapter \<Rightarrow> string \<Rightarrow> error + machineView option" where
  "getMachine s machineId =
     (if \<not> ma_initialized s then Inl (NotInitialized ''MachinesAdapter'')
      else case machines s machineId of
        None \<Rightarrow> Inr None
      | Some m \<Rightarrow>
          Inr (Some \<lparr>v_id = m_id m, v_name = m_name m, v_currentState = m_currentState m,
                     v_context = m_context m,
                     v_availableTransitions = getAvailableTransitions s machineId\<rparr>))"

text \<open>
  \<open>registerMachine(machineId, config)\<close>: writes \<open>machines\<close> and \<open>states\<close> and nothing else.
  \<open>config.name || machineId\<close> also replaces an empty name.
\<close>

definition registerMachine ::
  "timestamp \<Rightarrow> machinesAdapter \<Rightarrow> string \<Rightarrow> config \<Rightarrow> error + (machineView option \<times> machinesAdapter)" where
  "registerMachine now s machineId cfg =
     (if \<not> ma_initialized s then Inl (NotInitialized ''MachinesAdapter'')
      else
        let m = \<lparr>m_id = machineId,
                 m_name = (case c_name cfg of None \<Rightarrow> machineId
                           | Some n \<Rightarrow> if n = [] then machineId else n),
                 m_initialState = c_initialState cfg,
                 m_currentState = c_initialState cfg,
                 m_states = (case c_states cfg of None \<Rightarrow> Map.empty | Some st \<Rightarrow> st),
                 m_context = (case c_context cfg of None \<Rightarrow> [] | Some c \<Rightarrow> c),
                 m_createdAt = now\<rparr>;
            s' = s\<lparr>machines := (machines s)(machineId \<mapsto> m),
                   states := (states s)(machineId \<mapsto> m_currentState m)\<rparr>
        in case getMachine s' machineId of
             Inl e \<Rightarrow> Inl e
           | Inr view \<Rightarrow> Inr (view, s'))"

text \<open>
  \<open>_executeActions\<close>: the actions run in order on the machine's context; an exception of
  an action is caught and logged, and what the action had already written stays.
\<close>

fun executeActions :: "object \<Rightarrow> action list \<Rightarrow> object \<Rightarrow> object" where
  "executeActions ctx [] eventData = ctx"
| "executeActions ctx (ActFn f # rest) eventData = executeActions (snd (f ctx eventData)) rest eventData"
| "executeActions ctx (a # rest) eventData = executeActions ctx rest eventData"

text \<open>
  \<open>stateConfig.on && stateConfig.on[event]\<close> for the value \<open>stateConfig\<close> read from
  \<open>machine.states\<close>, with \<open>None\<close> for every falsy outcome: no \<open>on\<close> table, no entry for
  the event, or the empty string as entry. An inherited member read from the \<open>on\<close> table
  counts as an entry: it is an object without \<open>target\<close> and without \<open>actions\<close>.
\<close>

fun lookupTransition :: "stateConfig property \<Rightarrow> string \<Rightarrow> transitionEntry option" where
  "lookupTransition (Own stateConfig) event =
     (case sc_on stateConfig of
        None \<Rightarrow> None
      | Some tbl \<Rightarrow>
          (case getProperty (map_of tbl) event of
             Undefined \<Rightarrow> None
           | Inherited \<Rightarrow> Some (TObject None None)
           | Own (TString t) \<Rightarrow> if t = [] then None else Some (TString t)
           | Own (TObject t acts) \<Rightarrow> Some (TObject t acts)))"
| "lookupTransition Inherited event = None"
| "lookupTransition Undefined event = None"

datatype transitionResult =
    TransitionFailed stateName string
  | TransitionDone stateName stateName string

text \<open>
  \<open>transition(machineId, event, eventData)\<close>. The two \<open>throw\<close> statements come before any
  write; the failure result of a missing transition entry is returned, not raised.
\<close>

definition transition ::
  "timestamp \<Rightarrow> machinesAdapter \<Rightarrow> string \<Rightarrow> string \<Rightarrow> object
     \<Rightarrow> error + (transitionResult \<times> machinesAdapter)" where
  "transition now s machineId event eventData =
     (if \<not> ma_initialized s then Inl (NotInitialized ''MachinesAdapter'')
      else case machines s machineId of
        None \<Rightarrow> Inl (MachineNotFound machineId)
      | Some m \<Rightarrow>
          let currentState = m_currentState m in
          (case getProperty (m_states m) (key currentState) of
             Undefined \<Rightarrow> Inl (InvalidState (key currentState))
           | stateConfig \<Rightarrow>
               (case lookupTransition stateConfig event of
                  None \<Rightarrow> Inr (TransitionFailed currentState ''Invalid transition'', s)
                | Some tr \<Rightarrow>
                    let targetState = (case tr of TString t \<Rightarrow> Some t | TObject t acts \<Rightarrow> t);
                        m1 = (case tr of
                                TObject t (Some acts) \<Rightarrow>
                                  m\<lparr>m_context := executeActions (m_context m) acts eventData\<rparr>
                              | _ \<Rightarrow> m);
                        previousState = m_currentState m1;
                        m2 = m1\<lparr>m_currentState := targetState\<rparr>;
                        transitionRecord =
                          \<lparr>tr_machineId = machineId, tr_from = previousState, tr_to = targetState,
                           tr_event = event, tr_eventData = eventData, tr_timestamp = now\<rparr>;
                        history = (case transitions s machineId of None \<Rightarrow> [] | Some h \<Rightarrow> h)
                    in Inr (TransitionDone previousState targetState event,
                            s\<lparr>machines := (machines s)(machineId \<mapsto> m2),
                              states := (states s)(machineId \<mapsto> targetState),
                              transitions := (transitions s)(machineId \<mapsto> history @ [transitionRecord])\<rparr>))))"

definition getCurrentState :: "machinesAdapter \<Rightarrow> string \<Rightarrow> error + stateName option" where
  "getCurrentState s machineId =
     (if \<not> ma_initialized s then Inl (NotInitialized ''MachinesAdapter'')
      else Inr (map_option m_currentState (machines s machineId)))"

definition getContext :: "machinesAdapter \<Rightarrow> string \<Rightarrow> error + object option" where
  "getContext s machineId =
     (if \<not> ma_initialized s then Inl (NotInitialized ''MachinesAdapter'')
      else Inr (map_option m_context (machines s machineId)))"

text \<open>\<open>{...machine.context, ...contextUpdates}\<close>: later keys overwrite, new keys are appended.\<close>

definition spread :: "object \<Rightarrow> object \<Rightarrow> object" where
  "spread ctx updates = foldl (\<lambda>acc (k, v). AList.update k v acc) ctx updates"

definition updateContext ::
  "machinesAdapter \<Rightarrow> string \<Rightarrow> object \<Rightarrow> error + (bool \<times> machinesAdapter)" where
  "updateContext s machineId contextUpdates =
     (if \<not> ma_initialized s then Inl (NotInitialized ''MachinesAdapter'')
      else case machines s machineId of
        None \<Rightarrow> Inr (False, s)
      | Some m \<Rightarrow>
          Inr (True, s\<lparr>machines :=
                 (machines s)(machineId \<mapsto> m\<lparr>m_context := spread (m_context m) contextUpdates\<rparr>)\<rparr>))"

text \<open>
  \<open>Array.prototype.slice(start)\<close> with one argument: a negative start counts from the
  end, and both ends are clamped to the array.
\<close>

definition slice_from :: "int \<Rightarrow> 'a list \<Rightarrow> 'a list" where
  "slice_from start xs =
     (let n = int (length xs);
          k = (if start < 0 then max (n + start) 0 else min start n)
      in drop (nat k) xs)"

text \<open>\<open>getTransitionHistory(machineId, limit)\<close> is \<open>history.slice(-limit)\<close>.\<close>

definition getTransitionHistory ::
  "machinesAdapter \<Rightarrow> string \<Rightarrow> int \<Rightarrow> error + transitionRecord list" where
  "getTransitionHistory s machineId limit =
     (if \<not> ma_initialized s then Inl (NotInitialized ''MachinesAdapter'')
      else Inr (slice_from (- limit)
                  (case transitions s machineId of None \<Rightarrow> [] | Some h \<Rightarrow> h)))"

definition removeMachine :: "machinesAdapter \<Rightarrow> string \<Rightarrow> error + (bool \<times> machinesAdapter)" where
  "removeMachine s machineId =
     (if \<not> ma_initialized s then Inl (NotInitialized ''MachinesAdapter'')
      else case machines s machineId of
        None \<Rightarrow> Inr (False, s)
      | Some m \<Rightarrow>
          Inr (True, s\<lparr>machines := (machines s)(machineId := None),
                        states := (states s)(machineId := None),
                        transitions := (transitions s)(machineId := None)\<rparr>))"

text \<open>
  The machine of the repository's test script: \<open>idle\<close> goes to \<open>running\<close> on \<open>START\<close>,
  \<open>running\<close> to \<open>idle\<close> on \<open>STOP\<close>. \<open>flowRegistry\<close> is the registry after \<open>initialize\<close>
  and its registration, \<open>flowStarted\<close> the registry after the transition \<open>START\<close>.
\<close>

definition flowConfig :: config where
  "flowConfig =
     \<lparr>c_name = Some ''Test Flow'', c_initialState = Some ''idle'',
      c_states = Some [''idle'' \<mapsto> \<lparr>sc_on = Some [(''START'', TString ''running'')]\<rparr>,
                       ''running'' \<mapsto> \<lparr>sc_on = Some [(''STOP'', TString ''idle'')]\<rparr>],
      c_context = None\<rparr>"

definition flowRegistry :: machinesAdapter where
  "flowRegistry =
     (case registerMachine 10 (snd (ma_initialize newMachinesAdapter)) ''flow'' flowConfig of
        Inl e \<Rightarrow> newMachinesAdapter
      | Inr (view, s) \<Rightarrow> s)"

definition flowMachine :: machine where
  "flowMachine = \<lparr>m_id = ''flow'', m_name = ''Test Flow'', m_initialState = Some ''idle'',
     m_currentState = Some ''idle'',
     m_states = [''idle'' \<mapsto> \<lparr>sc_on = Some [(''START'', TString ''running'')]\<rparr>,
                 ''running'' \<mapsto> \<lparr>sc_on = Some [(''STOP'', TString ''idle'')]\<rparr>],
     m_context = [], m_createdAt = 10\<rparr>"

definition flowStarted :: machinesAdapter where
  "flowStarted =
     (case transition 20 flowRegistry ''flow'' ''START'' [] of
        Inl e \<Rightarrow> flowRegistry
      | Inr (r, s) \<Rightarrow> s)"

section \<open>Integration Listener\<close>

text \<open>
  Listener ids and event ids are the strings \<open>lst_...\<close> and \<open>evt_...\<close> of the two
  generators. The model numbers them: the id of a listener is the number of \<open>on\<close> calls
  made before its own, the id of an event the number of \<open>emit\<close> calls made before its own.
  The fields \<open>registeredAt\<close> and \<open>timestamp\<close> are written once and never read, and are left
  out.
\<close>

record options =
  o_once :: "bool option"
  o_priority :: "int option"

text \<open>
  An event handler is caller code. What it does to the bus is a list of actions run in
  order: calls of the public methods \<open>emit\<close>, \<open>on\<close>, \<open>off\<close> and \<open>clearListeners\<close> (awaited or
  not), and \<open>Raise\<close>, which ends the handler with an exception.
\<close>

datatype handlerAction =
    Emit string object
  | On string "handlerAction list" options
  | Off nat
  | ClearListeners "string option"
  | Raise

record listener =
  lid :: nat
  l_eventType :: string
  l_handler :: "handlerAction list"
  l_once :: bool
  l_priority :: int

record event =
  e_type :: string
  e_data :: object
  e_id :: nat

text \<open>
  What an observer of a run sees, in order:
  \<^item> \<open>Emitted e b\<close>: the \<open>emit\<close> call of event \<open>e\<close> pushed it on the queue, and found
    \<open>processing = b\<close>;
  \<^item> \<open>Invoked l e\<close>: the handler of listener \<open>l\<close> was called for event \<open>e\<close>;
  \<^item> \<open>Dispatched e\<close>: \<open>_processEvent\<close> returned for event \<open>e\<close>;
  \<^item> \<open>Returned e\<close>: the \<open>_processQueue()\<close> call that the \<open>emit\<close> of event \<open>e\<close> awaits
    returned, so that this \<open>emit\<close> returns to its caller.
\<close>

datatype obs =
    Emitted nat bool
  | Invoked nat nat
  | Dispatched nat
  | Returned nat

text \<open>
  \<open>_processQueue\<close> and the \<open>_processEvent\<close> it awaits are asynchronous: an activation of
  the drain loop is suspended at each \<open>await\<close> and resumed later. \<open>_processEvent\<close> holds a
  reference \<open>r\<close> to the listener array it got from the Map and walks it with \<open>for ... of\<close>,
  that is by an index into the array as it is at each step. The position of a suspended
  activation is
  \<^item> \<open>LoopHead\<close>: at the test of \<open>while (this.eventQueue.length > 0)\<close>;
  \<^item> \<open>NextListener ev r i toRemove\<close>: in \<open>_processEvent(ev)\<close>, at the head of the \<open>for\<close> loop,
    with \<open>i\<close> the index of the element to visit next;
  \<^item> \<open>InHandler ev r i toRemove l acts\<close>: inside \<open>await l.handler(...)\<close>, with \<open>acts\<close> the
    rest of the handler.
\<close>

datatype position =
    LoopHead
  | NextListener event nat nat "nat list"
  | InHandler event nat nat "nat list" listener "handlerAction list"

text \<open>
  The bus. The listener arrays are objects that \<open>on\<close> and \<open>off\<close> change in place and that
  a running \<open>_processEvent\<close> keeps a reference to, also after \<open>clearListeners\<close> has taken
  the array out of the Map. So the arrays live in a store, \<open>arrays\<close>, in the order of
  their creation, and the Map \<open>listeners\<close> takes an event type to the position of its
  array. The other fields are those of the class, the two id counters, the suspended
  activations of the drain loop (each with the id of the event whose \<open>emit\<close> call started
  it), and the observations so far.
\<close>

record bus =
  b_initialized :: bool
  arrays :: "listener list list"
  listeners :: "(string \<times> nat) list"
  eventQueue :: "event list"
  processing :: bool
  nextListenerId :: nat
  nextEventId :: nat
  drains :: "(nat \<times> position) list"
  trace :: "obs list"

definition newBus :: bus where
  "newBus = \<lparr>b_initialized = False, arrays = [], listeners = [], eventQueue = [],
             processing = False, nextListenerId = 0, nextEventId = 0, drains = [], trace = []\<rparr>"

text \<open>The array behind a reference. Every reference in use is a position of the store.\<close>

definition readArray :: "listener list list \<Rightarrow> nat \<Rightarrow> listener list" where
  "readArray store r = (if r < length store then store ! r else [])"

definition initialize :: "bus \<Rightarrow> bool \<times> bus" where
  "initialize s =
     (if b_initialized s then (True, s)
      else (True, s\<lparr>listeners := [], eventQueue := [], b_initialized := True\<rparr>))"

text \<open>
  \<open>Array.prototype.sort(cmp)\<close> is a stable sort. For a comparator that orders by a key,
  as \<open>(a, b) => b.options.priority - a.options.priority\<close> does, the result of a stable
  sort is determined; it is computed here by stable insertion.
\<close>

fun insertSorted :: "('a \<Rightarrow> 'a \<Rightarrow> int) \<Rightarrow> 'a \<Rightarrow> 'a list \<Rightarrow> 'a list" where
  "insertSorted cmp x [] = [x]"
| "insertSorted cmp x (y # ys) =
     (if cmp x y \<le> 0 then x # y # ys else y # insertSorted cmp x ys)"

definition sortBy :: "('a \<Rightarrow> 'a \<Rightarrow> int) \<Rightarrow> 'a list \<Rightarrow> 'a list" where
  "sortBy cmp xs = foldr (insertSorted cmp) xs []"

definition byPriority :: "listener \<Rightarrow> listener \<Rightarrow> int" where
  "byPriority a b = l_priority b - l_priority a"

text \<open>
  \<open>on(eventType, handler, options)\<close>: \<open>options.once || false\<close>, \<open>options.priority || 0\<close>;
  a new empty array is put in the Map when the type has none; then the listener is
  pushed and the array sorted, both in place. Returns the listener id.
\<close>

definition on :: "bus \<Rightarrow> string \<Rightarrow> handlerAction list \<Rightarrow> options \<Rightarrow> error + (nat \<times> bus)" where
  "on s eventType handler opts =
     (if \<not> b_initialized s then Inl (NotInitialized ''IntegrationListener'')
      else
        let listenerId = nextListenerId s;
            l = \<lparr>lid = listenerId, l_eventType = eventType, l_handler = handler,
                 l_once = (case o_once opts of None \<Rightarrow> False | Some b \<Rightarrow> b),
                 l_priority = (case o_priority opts of None \<Rightarrow> 0 | Some p \<Rightarrow> p)\<rparr>;
            s1 = (case map_of (listeners s) eventType of
                    Some r \<Rightarrow> s
                  | None \<Rightarrow> s\<lparr>arrays := arrays s @ [[]],
                              listeners := AList.update eventType (length (arrays s)) (listeners s)\<rparr>);
            r = (case map_of (listeners s1) eventType of Some r \<Rightarrow> r | None \<Rightarrow> length (arrays s1))
        in Inr (listenerId,
                s1\<lparr>arrays := (arrays s1)[r := sortBy byPriority (readArray (arrays s1) r @ [l])],
                   nextListenerId := listenerId + 1\<rparr>))"

text \<open>\<open>listeners.splice(findIndex(l => l.id === listenerId), 1)\<close>, for an id that is found.\<close>

fun removeFirst :: "nat \<Rightarrow> listener list \<Rightarrow> listener list" where
  "removeFirst i [] = []"
| "removeFirst i (l # ls) = (if lid l = i then ls else l # removeFirst i ls)"

text \<open>
  The loop of \<open>off\<close> over the entries of the Map: the first array that holds the id is
  spliced in place. \<open>None\<close> when no array of the Map holds the id.
\<close>

fun offScan :: "nat \<Rightarrow> listener list list \<Rightarrow> (string \<times> nat) list \<Rightarrow> listener list list option" where
  "offScan i store [] = None"
| "offScan i store ((ty, r) # rest) =
     (if list_ex (\<lambda>l. lid l = i) (readArray store r)
      then Some (store[r := removeFirst i (readArray store r)])
      else offScan i store rest)"

definition off :: "bus \<Rightarrow> nat \<Rightarrow> error + (bool \<times> bus)" where
  "off s listenerId =
     (if \<not> b_initialized s then Inl (NotInitialized ''IntegrationListener'')
      else case offScan listenerId (arrays s) (listeners s) of
        None \<Rightarrow> Inr (False, s)
      | Some store \<Rightarrow> Inr (True, s\<lparr>arrays := store\<rparr>))"

text \<open>The array \<open>this.listeners.get(eventType) || []\<close>.\<close>

definition listenersOf :: "bus \<Rightarrow> string \<Rightarrow> listener list" where
  "listenersOf s eventType =
     (case map_of (listeners s) eventType of None \<Rightarrow> [] | Some r \<Rightarrow> readArray (arrays s) r)"

definition getListeners :: "bus \<Rightarrow> string \<Rightarrow> error + listener list" where
  "getListeners s eventType =
     (if \<not> b_initialized s then Inl (NotInitialized ''IntegrationListener'')
      else Inr (listenersOf s eventType))"

text \<open>
  \<open>clearListeners(eventType = null)\<close>; the empty string is falsy and clears all, as \<open>null\<close>.
  The Map loses its entries; the arrays themselves are not emptied.
\<close>

definition clearListeners :: "bus \<Rightarrow> string option \<Rightarrow> error + (nat \<times> bus)" where
  "clearListeners s eventType =
     (if \<not> b_initialized s then Inl (NotInitialized ''IntegrationListener'')
      else
        let clearAll = Inr (sum_list (map (\<lambda>(ty, r). length (readArray (arrays s) r)) (listeners s)),
                            s\<lparr>listeners := []\<rparr>)
        in case eventType of
             None \<Rightarrow> clearAll
           | Some ty \<Rightarrow>
               if ty = [] then clearAll
               else (case map_of (listeners s) ty of
                  None \<Rightarrow> Inr (0, s)
                | Some r \<Rightarrow> Inr (length (readArray (arrays s) r),
                                 s\<lparr>listeners := AList.delete ty (listeners s)\<rparr>)))"

text \<open>
  The entry of \<open>_processQueue()\<close>, called by the \<open>emit\<close> of event \<open>owner\<close>. Under the guard
  it returns at once, and with it the awaiting \<open>emit\<close>. Otherwise it sets \<open>processing\<close>
  and is from then on an activation of the drain loop; the \<open>emit\<close> that awaits it returns
  when the activation ends.
\<close>

definition processQueue :: "nat \<Rightarrow> bus \<Rightarrow> bus" where
  "processQueue owner s =
     (if processing s \<or> eventQueue s = [] then s\<lparr>trace := trace s @ [Returned owner]\<rparr>
      else s\<lparr>processing := True, drains := drains s @ [(owner, LoopHead)]\<rparr>)"

text \<open>\<open>emit(eventType, eventData)\<close> up to its \<open>await this._processQueue()\<close>.\<close>

definition emit :: "bus \<Rightarrow> string \<Rightarrow> object \<Rightarrow> error + bus" where
  "emit s eventType eventData =
     (if \<not> b_initialized s then Inl (NotInitialized ''IntegrationListener'')
      else
        let ev = \<lparr>e_type = eventType, e_data = eventData, e_id = nextEventId s\<rparr>
        in Inr (processQueue (e_id ev)
                  (s\<lparr>eventQueue := eventQueue s @ [ev],
                     nextEventId := nextEventId s + 1,
                     trace := trace s @ [Emitted (e_id ev) (processing s)]\<rparr>)))"

text \<open>\<open>toRemove.forEach(id => this.off(id))\<close>.\<close>

definition removeAll :: "nat list \<Rightarrow> bus \<Rightarrow> bus" where
  "removeAll toRemove s =
     foldl (\<lambda>acc i. case off acc i of Inl e \<Rightarrow> acc | Inr (found, acc') \<Rightarrow> acc') s toRemove"

text \<open>
  One action of a handler: the bus after it, or \<open>None\<close> when the handler raises, by
  \<open>Raise\<close> or by an exception of the method it calls.
\<close>

fun act :: "handlerAction \<Rightarrow> bus \<Rightarrow> bus option" where
  "act (Emit eventType eventData) s =
     (case emit s eventType eventData of Inl e \<Rightarrow> None | Inr s' \<Rightarrow> Some s')"
| "act (On eventType handler opts) s =
     (case on s eventType handler opts of Inl e \<Rightarrow> None | Inr (i, s') \<Rightarrow> Some s')"
| "act (Off listenerId) s =
     (case off s listenerId of Inl e \<Rightarrow> None | Inr (found, s') \<Rightarrow> Some s')"
| "act (ClearListeners eventType) s =
     (case clearListeners s eventType of Inl e \<Rightarrow> None | Inr (n, s') \<Rightarrow> Some s')"
| "act Raise s = None"

text \<open>
  One step of a suspended activation, from its position to the next one (\<open>None\<close>: the
  activation has ended).
  \<^item> At the loop head with an empty queue the loop ends: \<open>processing = false\<close>, and the
    \<open>emit\<close> that started the activation returns. Otherwise the first event is shifted
    and \<open>_processEvent\<close> starts: it reads the array of the event's type from the Map and
    returns at once when there is none or it is empty.
  \<^item> At the head of the \<open>for\<close> loop the iterator compares its index with the length the
    array has now. Within the array, the element at the index is taken, the index moves
    on and the handler of that element is called. Past the end, the ids in \<open>toRemove\<close> are
    removed and \<open>_processEvent\<close> returns.
  \<^item> A handler that ends normally puts its listener on \<open>toRemove\<close> when \<open>once\<close> is set:
    the \<open>push\<close> stands after the \<open>await\<close> inside the \<open>try\<close>. A handler that raises
    goes to the \<open>catch\<close>, which logs; the \<open>push\<close> is skipped.
\<close>

fun resume :: "nat \<Rightarrow> position \<Rightarrow> bus \<Rightarrow> position option \<times> bus" where
  "resume owner LoopHead s =
     (case eventQueue s of
        [] \<Rightarrow> (None, s\<lparr>processing := False, trace := trace s @ [Returned owner]\<rparr>)
      | ev # q \<Rightarrow>
          (case map_of (listeners s) (e_type ev) of
             None \<Rightarrow> (Some LoopHead, s\<lparr>eventQueue := q, trace := trace s @ [Dispatched (e_id ev)]\<rparr>)
           | Some r \<Rightarrow>
               if readArray (arrays s) r = []
               then (Some LoopHead, s\<lparr>eventQueue := q, trace := trace s @ [Dispatched (e_id ev)]\<rparr>)
               else (Some (NextListener ev r 0 []), s\<lparr>eventQueue := q\<rparr>)))"
| "resume owner (NextListener ev r i toRemove) s =
     (if i < length (readArray (arrays s) r)
      then
        let l = readArray (arrays s) r ! i
        in (Some (InHandler ev r (i + 1) toRemove l (l_handler l)),
            s\<lparr>trace := trace s @ [Invoked (lid l) (e_id ev)]\<rparr>)
      else
        let s' = removeAll toRemove s
        in (Some LoopHead, s'\<lparr>trace := trace s' @ [Dispatched (e_id ev)]\<rparr>))"
| "resume owner (InHandler ev r i toRemove l []) s =
     (Some (NextListener ev r i (if l_once l then toRemove @ [lid l] else toRemove)), s)"
| "resume owner (InHandler ev r i toRemove l (a # acts)) s =
     (case act a s of
        None \<Rightarrow> (Some (NextListener ev r i toRemove), s)
      | Some s' \<Rightarrow> (Some (InHandler ev r i toRemove l acts), s'))"

text \<open>The \<open>k\<close>-th suspended activation takes one step; there is nothing to do without it.\<close>

definition step :: "nat \<Rightarrow> bus \<Rightarrow> bus" where
  "step k s =
     (if k < length (drains s) then
        (case drains s ! k of
           (owner, pos) \<Rightarrow>
             (case resume owner pos s of
                (None, s') \<Rightarrow> s'\<lparr>drains := take k (drains s') @ drop (Suc k) (drains s')\<rparr>
              | (Some pos', s') \<Rightarrow> s'\<lparr>drains := (drains s')[k := (owner, pos')]\<rparr>))
      else s)"

text \<open>
  What the callers and the scheduler do, one call at a time: the calls of the public
  methods from outside of handlers, at any moment, also while a drain is suspended, and
  \<open>Tick k\<close>, the resumption of the \<open>k\<close>-th suspended activation. A call that raises leaves
  the bus as it was.
\<close>

datatype call =
    CallInitialize
  | CallOn string "handlerAction list" options
  | CallOff nat
  | CallClear "string option"
  | CallEmit string object
  | Tick nat

fun exec :: "call \<Rightarrow> bus \<Rightarrow> bus" where
  "exec CallInitialize s = snd (initialize s)"
| "exec (CallOn eventType handler opts) s =
     (case on s eventType handler opts of Inl e \<Rightarrow> s | Inr (i, s') \<Rightarrow> s')"
| "exec (CallOff listenerId) s =
     (case off s listenerId of Inl e \<Rightarrow> s | Inr (found, s') \<Rightarrow> s')"
| "exec (CallClear eventType) s =
     (case clearListeners s eventType of Inl e \<Rightarrow> s | Inr (n, s') \<Rightarrow> s')"
| "exec (CallEmit eventType eventData) s =
     (case emit s eventType eventData of Inl e \<Rightarrow> s | Inr s' \<Rightarrow> s')"
| "exec (Tick k) s = step k s"

fun run :: "call list \<Rightarrow> bus \<Rightarrow> bus" where
  "run [] s = s"
| "run (c # cs) s = run cs (exec c s)"

text \<open>
  Readings of the observations: the event ids of the handler calls, in order, and the
  event ids of the \<open>emit\<close> calls, in order.
\<close>

fun invokedEvent :: "obs \<Rightarrow> nat option" where
  "invokedEvent (Invoked l e) = Some e"
| "invokedEvent _ = None"

definition invokedIds :: "obs list \<Rightarrow> nat list" where
  "invokedIds tr = List.map_filter invokedEvent tr"

fun emittedEvent :: "obs \<Rightarrow> nat option" where
  "emittedEvent (Emitted e b) = Some e"
| "emittedEvent _ = None"

definition emittedIds :: "obs list \<Rightarrow> nat list" where
  "emittedIds tr = List.map_filter emittedEvent tr"

text \<open>
  The event a suspended activation is processing, and with it all events that are
  emitted and not yet dispatched: those in process, then the queue.
\<close>

fun positionIds :: "position \<Rightarrow> nat list" where
  "positionIds LoopHead = []"
| "positionIds (NextListener ev r i toRemove) = [e_id ev]"
| "positionIds (InHandler ev r i toRemove l acts) = [e_id ev]"

definition pendingIds :: "bus \<Rightarrow> nat list" where
  "pendingIds s = concat (map (\<lambda>(owner, pos). positionIds pos) (drains s)) @ map e_id (eventQueue s)"

text \<open>
  At most one activation of the drain loop exists, and \<open>processing\<close> is set exactly
  while it does. Without one the queue is empty.
\<close>

definition oneDrain :: "bus \<Rightarrow> bool" where
  "oneDrain s =
     (length (drains s) \<le> 1 \<and> processing s = (drains s \<noteq> []) \<and>
      (drains s = [] \<longrightarrow> eventQueue s = []) \<and> (drains s \<noteq> [] \<longrightarrow> b_initialized s))"

text \<open>
  The events of the handler calls so far, then the events in process, then the queue:
  their ids never decrease, and all are ids of \<open>emit\<close> calls already made.
\<close>

definition fifo :: "bus \<Rightarrow> bool" where
  "fifo s =
     (sorted (invokedIds (trace s) @ pendingIds s) \<and>
      (\<forall>x \<in> set (invokedIds (trace s) @ pendingIds s). x < nextEventId s))"

text \<open>The \<open>emit\<close> calls are numbered in the order in which they are made.\<close>

definition numbered :: "bus \<Rightarrow> bool" where
  "numbered s = (emittedIds (trace s) = [0..<nextEventId s])"

text \<open>Every emitted event is dispatched, in process or queued.\<close>

definition accounted :: "bus \<Rightarrow> bool" where
  "accounted s =
     (\<forall>e < nextEventId s. Dispatched e \<in> set (trace s) \<or> e \<in> set (pendingIds s))"

text \<open>
  When the \<open>emit\<close> call of an event that found \<open>processing = false\<close> returns, every
  event emitted until then has been dispatched.
\<close>

definition returnsLate :: "obs list \<Rightarrow> bool" where
  "returnsLate tr =
     (\<forall>pre post e. tr = pre @ Returned e # post \<and> Emitted e False \<in> set pre \<longrightarrow>
        (\<forall>e' b. Emitted e' b \<in> set pre \<longrightarrow> Dispatched e' \<in> set pre))"

text \<open>
  The two invariants above for one activation at position \<open>pos\<close>, as properties of the
  list of ids and of the observations.
\<close>

definition ordered :: "nat list \<Rightarrow> nat \<Rightarrow> bool" where
  "ordered ids bound = (sorted ids \<and> (\<forall>x \<in> set ids. x < bound))"

definition covered :: "obs list \<Rightarrow> nat list \<Rightarrow> nat \<Rightarrow> bool" where
  "covered tr ids bound = (\<forall>e < bound. Dispatched e \<in> set tr \<or> e \<in> set ids)"

text \<open>The invariant of every run.\<close>

definition busInv :: "bus \<Rightarrow> bool" where
  "busInv s = (oneDrain s \<and> fifo s \<and> numbered s \<and> accounted s \<and> returnsLate (trace s))"

text \<open>
  The calls that register and remove listeners touch neither the queue, the flag, the
  activations, the observations nor the event counter.
\<close>

definition sameDrain :: "bus \<Rightarrow> bus \<Rightarrow> bool" where
  "sameDrain s s' =
     (eventQueue s' = eventQueue s \<and> processing s' = processing s \<and> drains s' = drains s \<and>
      trace s' = trace s \<and> nextEventId s' = nextEventId s \<and> b_initialized s' = b_initialized s)"

text \<open>
  The order of a listener array: higher priority first, and among equal priorities the
  listener registered earlier (the smaller id) first.
\<close>

definition before :: "listener \<Rightarrow> listener \<Rightarrow> bool" where
  "before a b =
     (l_priority a > l_priority b \<or> (l_priority a = l_priority b \<and> lid a < lid b))"

text \<open>
  Every listener array, in the Map or taken out of it, is in that order and holds ids
  already given out; every reference in the Map is a position of the store.
\<close>

definition prioritySorted :: "bus \<Rightarrow> bool" where
  "prioritySorted s =
     ((\<forall>ls \<in> set (arrays s). sorted_wrt before ls \<and> (\<forall>l \<in> set ls. lid l < nextListenerId s)) \<and>
      (\<forall>(ty, r) \<in> set (listeners s). r < length (arrays s)))"

text \<open>Listeners of equal priority stand in the order of their ids.\<close>

definition tieOrdered :: "listener list \<Rightarrow> bool" where
  "tieOrdered xs = sorted_wrt (\<lambda>a b. l_priority a = l_priority b \<longrightarrow> lid a < lid b) xs"

text \<open>The listeners whose handlers were called for event \<open>e\<close>, in the order of the calls.\<close>

fun invokedListener :: "nat \<Rightarrow> obs \<Rightarrow> nat option" where
  "invokedListener e (Invoked l e') = (if e' = e then Some l else None)"
| "invokedListener e _ = None"

definition invokedFor :: "nat \<Rightarrow> obs list \<Rightarrow> nat list" where
  "invokedFor e tr = List.map_filter (invokedListener e) tr"

text \<open>The handler actions that neither register nor remove a listener.\<close>

fun keepsListeners :: "handlerAction \<Rightarrow> bool" where
  "keepsListeners (Emit eventType eventData) = True"
| "keepsListeners Raise = True"
| "keepsListeners _ = False"

text \<open>
  Options and schedules of the examples: \<open>{once: true}\<close>, \<open>{}\<close>, \<open>{priority: p}\<close>; a bus
  whose listener for \<open>'a'\<close> emits \<open>'b'\<close>, with one \<open>emit('a')\<close> from outside; registrations
  with priorities 1, 5, 3 and again 5 for one event type; and a bus with two listeners
  for \<open>'e'\<close>, of priorities 5 and 1, the first of which unsubscribes itself in its
  handler (\<open>const id = bus.on('e', () => bus.off(id), {priority: 5})\<close>).
\<close>

definition onceOptions :: options where
  "onceOptions = \<lparr>o_once = Some True, o_priority = None\<rparr>"

definition plainOptions :: options where
  "plainOptions = \<lparr>o_once = None, o_priority = None\<rparr>"

definition priority :: "int \<Rightarrow> options" where
  "priority p = \<lparr>o_once = None, o_priority = Some p\<rparr>"


definition priorityCalls :: "call list" where
  "priorityCalls =
     [CallInitialize, CallOn ''a'' [] (priority 1), CallOn ''a'' [] (priority 5),
      CallOn ''a'' [] (priority 3), CallOn ''a'' [] (priority 5)]"

definition unsubscribeCalls :: "call list" where
  "unsubscribeCalls =
     [CallInitialize, CallOn ''e'' [Off 0] (priority 5), CallOn ''e'' [] (priority 1)]"

section \<open>Properties of the Token Service\<close>

lemma set_update_cases:
  "(k', v') \<in> set (AList.update k v al) \<Longrightarrow> (k', v') \<in> set al \<or> (k' = k \<and> v' = v)"
  by (induction al) (auto split: if_splits)

lemma distinct_update_entry:
  assumes "distinct (map fst al)" "(k, v') \<in> set (AList.update k v al)"
  shows "v' = v"
proof -
  have "distinct (map fst (AList.update k v al))" using assms(1) by (simp add: distinct_update)
  then have "map_of (AList.update k v al) k = Some v'" using assms(2) by simp
  then show ?thesis by (simp add: update_conv')
qed

lemma revoked_update_other:
  "revoked s tokenId \<Longrightarrow> k \<noteq> tokenId \<or> \<not> t_valid v \<Longrightarrow>
   revoked (s\<lparr>tokens := AList.update k v (tokens s)\<rparr>) tokenId"
  unfolding revoked_def by (auto dest: set_update_cases)

lemma revoked_applyOp:
  "revoked s tokenId \<Longrightarrow> createdId op \<noteq> Some tokenId \<Longrightarrow> revoked (applyOp s op) tokenId"
proof (cases op)
  case OpInitialize
  then show "revoked s tokenId \<Longrightarrow> ?thesis" by (auto simp: ts_initialize_def revoked_def)
next
  case (OpCreate gid gval tc te ty payload expiresIn)
  then show "revoked s tokenId \<Longrightarrow> createdId op \<noteq> Some tokenId \<Longrightarrow> ?thesis"
    by (auto simp: createToken_def Let_def intro: revoked_update_other)
next
  case (OpValidate now k)
  then show "revoked s tokenId \<Longrightarrow> ?thesis"
    by (auto simp: validateToken_def intro: revoked_update_other split: option.splits)
next
  case (OpGet now k)
  then show "revoked s tokenId \<Longrightarrow> ?thesis"
    by (auto simp: getToken_def validateToken_def intro: revoked_update_other split: option.splits)
next
  case (OpRevoke k)
  then show "revoked s tokenId \<Longrightarrow> ?thesis"
    by (auto simp: revokeToken_def intro: revoked_update_other split: option.splits)
next
  case (OpCleanup now)
  then show "revoked s tokenId \<Longrightarrow> ?thesis"
    by (auto simp: cleanupExpiredTokens_def revoked_def)
qed

lemma initialized_applyOp: "ts_initialized s \<Longrightarrow> ts_initialized (applyOp s op)"
  by (cases op)
     (auto simp: ts_initialize_def createToken_def validateToken_def getToken_def revokeToken_def
        cleanupExpiredTokens_def Let_def split: option.splits)

lemma revoked_runOps:
  "revoked s tokenId \<Longrightarrow> Some tokenId \<notin> createdId ` set ops \<Longrightarrow> revoked (runOps s ops) tokenId"
  unfolding runOps_def
proof (induction ops arbitrary: s)
  case Nil
  then show ?case by simp
next
  case (Cons op ops)
  from Cons.prems have "createdId op \<noteq> Some tokenId" by force
  with Cons.prems have "revoked (applyOp s op) tokenId" by (intro revoked_applyOp)
  moreover from Cons.prems have "Some tokenId \<notin> createdId ` set ops" by auto
  ultimately show ?case using Cons.IH by simp
qed

lemma initialized_runOps: "ts_initialized s \<Longrightarrow> ts_initialized (runOps s ops)"
  unfolding runOps_def by (induction ops arbitrary: s) (auto intro: initialized_applyOp)

lemma revoked_validateToken:
  "ts_initialized s \<Longrightarrow> revoked s tokenId \<Longrightarrow> \<exists>s'. validateToken now s tokenId = Inr (False, s')"
  unfolding validateToken_def revoked_def
  by (auto split: option.splits dest!: map_of_SomeD)

lemma revoked_after_expiry:
  assumes "distinct (map fst (tokens s))" "ts_initialized s" "map_of (tokens s) tokenId = Some tk"
    "t_expiresAt tk < now"
  shows "revoked (applyOp s (OpValidate now tokenId)) tokenId"
proof -
  have "\<And>v'. (tokenId, v') \<in> set (AList.update tokenId (tk\<lparr>t_valid := False\<rparr>) (tokens s))
      \<Longrightarrow> \<not> t_valid v'"
    using assms(1) by (auto dest: distinct_update_entry)
  with assms show ?thesis by (auto simp: validateToken_def revoked_def)
qed

text \<open>
  C5. For a token stored in an initialized service (a Map: one entry per id),
  \<open>validateToken\<close> returns true exactly when the stored flag is true and the clock
  reading is at most \<open>expiresAt\<close>. Once a call has found the token
  expired, the stored flag is false for good: after any further operations of the service
  (none of which generates the same id again), with any clock readings, also earlier
  ones, every \<open>validateToken\<close> on that id returns false, and the flag, if the token is
  still stored, is false.
\<close>

theorem validateToken_lazy_expiry:
  assumes "ts_initialized s" and "distinct (map fst (tokens s))"
    and "map_of (tokens s) tokenId = Some tk"
  shows "(\<exists>s'. validateToken now s tokenId = Inr (t_valid tk \<and> now \<le> t_expiresAt tk, s')) \<and>
         (t_expiresAt tk < now \<and> Some tokenId \<notin> createdId ` set ops \<longrightarrow>
            (\<exists>s'. validateToken later (runOps (applyOp s (OpValidate now tokenId)) ops) tokenId
                     = Inr (False, s')) \<and>
            (\<forall>tk'. map_of (tokens (runOps (applyOp s (OpValidate now tokenId)) ops)) tokenId = Some tk'
                     \<longrightarrow> \<not> t_valid tk'))"
proof (intro conjI impI)
  show "\<exists>s'. validateToken now s tokenId = Inr (t_valid tk \<and> now \<le> t_expiresAt tk, s')"
    using assms by (auto simp: validateToken_def)
next
  assume h: "t_expiresAt tk < now \<and> Some tokenId \<notin> createdId ` set ops"
  let ?s2 = "runOps (applyOp s (OpValidate now tokenId)) ops"
  have r: "revoked ?s2 tokenId"
    using h assms by (intro revoked_runOps revoked_after_expiry) auto
  have i: "ts_initialized ?s2"
    using assms by (intro initialized_runOps initialized_applyOp)
  show "\<exists>s'. validateToken later ?s2 tokenId = Inr (False, s')"
    using r i by (rule revoked_validateToken[rotated])
  show "\<forall>tk'. map_of (tokens ?s2) tokenId = Some tk' \<longrightarrow> \<not> t_valid tk'"
    using r unfolding revoked_def by (auto dest!: map_of_SomeD)
qed

lemma sampleStore_eq:
  "sampleStore = \<lparr>tokens = [(''tok_a'', sampleToken)], ts_initialized = True\<rparr>"
  by (simp add: sampleStore_def sampleToken_def runOps_def newTokenService_def ts_initialize_def
      createToken_def)

theorem validateToken_lazy_expiry_witness:
  "ts_initialized sampleStore \<and> distinct (map fst (tokens sampleStore)) \<and>
   map_of (tokens sampleStore) ''tok_a'' = Some sampleToken \<and>
   t_expiresAt sampleToken < 101 \<and>
   Some ''tok_a'' \<notin> createdId ` set [OpCleanup 7, OpCreate ''tok_b'' ''11'' 8 8 ''api'' [] 5] \<and>
   (\<exists>s'. validateToken 50
       (runOps (applyOp sampleStore (OpValidate 101 ''tok_a''))
          [OpCleanup 7, OpCreate ''tok_b'' ''11'' 8 8 ''api'' [] 5]) ''tok_a'' = Inr (False, s'))"
proof -
  have a: "ts_initialized sampleStore" "distinct (map fst (tokens sampleStore))"
    "map_of (tokens sampleStore) ''tok_a'' = Some sampleToken"
    by (simp_all add: sampleStore_eq)
  have b: "t_expiresAt sampleToken < 101 \<and>
    Some ''tok_a'' \<notin> createdId ` set [OpCleanup 7, OpCreate ''tok_b'' ''11'' 8 8 ''api'' [] 5]"
    by (simp add: sampleToken_def)
  from validateToken_lazy_expiry[OF a, of 101 "[OpCleanup 7, OpCreate ''tok_b'' ''11'' 8 8 ''api'' [] 5]" 50]
    a b show ?thesis by blast
qed

section \<open>Properties of the Auth Service\<close>

lemma sampleAuth_eq:
  "sampleAuth = \<lparr>as_initialized = True, currentUser = None, sessions = [],
     tokenService = Some \<lparr>tokens = [], ts_initialized = True\<rparr>, heap = [], localStorage = None\<rparr>"
  by (simp add: sampleAuth_def as_initialize_def newAuthService_def restoreSession_def
      ts_initialize_def newTokenService_def)

text \<open>
  C9. On an initialized service, \<open>authenticate\<close> with an empty identifier or an empty
  credential returns \<open>{success: false, error: 'Invalid credentials'}\<close> for every method
  and leaves the service as it was: no token, no session and no current user is created,
  whatever the other argument is.
\<close>

theorem authenticate_empty_rejected:
  assumes "as_initialized s" and "identifier = [] \<or> credential = []"
  shows "authenticate d s identifier credential method = Inr (AuthFailure ''Invalid credentials'', s)"
  using assms by (auto simp: authenticate_def validateCredentials_def)

theorem authenticate_empty_rejected_witness:
  "as_initialized sampleAuth \<and>
   length ''0123456789abcdef0123456789abcdef'' = 32 \<and>
   authenticate (sampleDraws ''usr_1'' ''tok_1'') sampleAuth [] ''0123456789abcdef0123456789abcdef'' ''wallet''
     = Inr (AuthFailure ''Invalid credentials'', sampleAuth)"
  using authenticate_empty_rejected[of sampleAuth "[]" "''0123456789abcdef0123456789abcdef''"
      "sampleDraws ''usr_1'' ''tok_1''" "''wallet''"]
  by (simp add: sampleAuth_eq)

lemma revokeSessions_keeps_session:
  "map_of (sessions s) k = Some se \<Longrightarrow>
   (\<forall>(k', se') \<in> set xs. k' = k \<longrightarrow> Some (se_user se') \<noteq> cu) \<Longrightarrow>
   map_of (sessions (snd (revokeSessions cu xs s))) k = Some se"
proof (induction cu xs s rule: revokeSessions.induct)
  case (1 cu s)
  then show ?case by simp
next
  case (2 cu tokenId se' rest s)
  then show ?case
    by (auto simp: delete_conv' split: option.splits sum.splits)
qed

lemma revokeToken_other:
  "revokeToken ts tokenId = Inr (b, ts1) \<Longrightarrow> tokenId \<noteq> k \<Longrightarrow>
   map_of (tokens ts1) k = map_of (tokens ts) k"
  by (auto simp: revokeToken_def update_conv' split: if_splits option.splits)

lemma revokeToken_initialized:
  "revokeToken ts tokenId = Inr (b, ts1) \<Longrightarrow> ts_initialized ts1 = ts_initialized ts"
  by (auto simp: revokeToken_def split: if_splits option.splits)

lemma revokeToken_returns:
  "ts_initialized ts \<Longrightarrow> \<exists>b ts1. revokeToken ts tokenId = Inr (b, ts1)"
  by (auto simp: revokeToken_def split: option.splits)

lemma revokeSessions_keeps_token:
  "tokenService s = Some ts \<Longrightarrow> map_of (tokens ts) k = Some tk \<Longrightarrow>
   (\<forall>(k', se') \<in> set xs. k' = k \<longrightarrow> Some (se_user se') \<noteq> cu) \<Longrightarrow>
   \<exists>ts'. tokenService (snd (revokeSessions cu xs s)) = Some ts' \<and> map_of (tokens ts') k = Some tk
      \<and> ts_initialized ts' = ts_initialized ts"
proof (induction xs arbitrary: s ts)
  case Nil
  then show ?case by simp
next
  case (Cons x xs)
  obtain tokenId se' where x: "x = (tokenId, se')" by (cases x)
  show ?case
  proof (cases "Some (se_user se') = cu")
    case False
    with Cons x show ?thesis by auto
  next
    case True
    with Cons.prems x have ne: "tokenId \<noteq> k" by auto
    show ?thesis
    proof (cases "revokeToken ts tokenId")
      case (Inl e)
      with True Cons.prems x show ?thesis by auto
    next
      case (Inr p)
      obtain b ts1 where p: "p = (b, ts1)" by (cases p)
      let ?s1 = "s\<lparr>tokenService := Some ts1, sessions := AList.delete tokenId (sessions s)\<rparr>"
      have k1: "map_of (tokens ts1) k = Some tk" "ts_initialized ts1 = ts_initialized ts"
        using Inr p ne Cons.prems(2) revokeToken_other revokeToken_initialized by auto
      have "\<exists>ts'. tokenService (snd (revokeSessions cu xs ?s1)) = Some ts' \<and>
              map_of (tokens ts') k = Some tk \<and> ts_initialized ts' = ts_initialized ts1"
        using Cons.prems(3) k1 by (intro Cons.IH) auto
      then show ?thesis using True Cons.prems(1) Inr p x k1 by auto
    qed
  qed
qed

lemma revokeSessions_absent:
  "map_of (sessions s) k = None \<Longrightarrow> map_of (sessions (snd (revokeSessions cu xs s))) k = None"
  by (induction cu xs s rule: revokeSessions.induct)
     (auto simp: delete_conv' split: option.splits sum.splits)

lemma revokeSessions_succeeds:
  "tokenService s = Some ts \<Longrightarrow> ts_initialized ts \<Longrightarrow> fst (revokeSessions cu xs s)"
proof (induction xs arbitrary: s ts)
  case Nil
  then show ?case by simp
next
  case (Cons x xs)
  obtain tokenId se' where x: "x = (tokenId, se')" by (cases x)
  from Cons.prems(2) obtain b ts1 where r: "revokeToken ts tokenId = Inr (b, ts1)"
    using revokeToken_returns by blast
  then have i: "ts_initialized ts1" using Cons.prems(2) revokeToken_initialized by blast
  let ?s1 = "s\<lparr>tokenService := Some ts1, sessions := AList.delete tokenId (sessions s)\<rparr>"
  have "fst (revokeSessions cu xs ?s1)" using i by (intro Cons.IH[of _ ts1]) auto
  moreover have "fst (revokeSessions cu xs s)" using Cons.prems by (intro Cons.IH)
  ultimately show ?case using x r Cons.prems(1) by auto
qed

lemma revokeSessions_removes:
  "(k, se) \<in> set xs \<Longrightarrow> Some (se_user se) = cu \<Longrightarrow> fst (revokeSessions cu xs s) \<Longrightarrow>
   map_of (sessions (snd (revokeSessions cu xs s))) k = None"
proof (induction cu xs s rule: revokeSessions.induct)
  case (1 cu s)
  then show ?case by simp
next
  case (2 cu tokenId se' rest s)
  then show ?case
    by (auto simp: delete_conv' revokeSessions_absent split: option.splits sum.splits if_splits)
qed

lemma revokeSessions_frame:
  "currentUser (snd (revokeSessions cu xs s)) = currentUser s \<and>
   as_initialized (snd (revokeSessions cu xs s)) = as_initialized s \<and>
   heap (snd (revokeSessions cu xs s)) = heap s"
  by (induction cu xs s rule: revokeSessions.induct) (auto split: option.splits sum.splits)

lemma authenticate_success:
  assumes "authenticate d s i c m = Inr (AuthSuccess r u t, s')"
  obtains ts ts' tk where
    "tokenService s = Some ts" "ts_initialized ts" "as_initialized s"
    "r = length (heap s)" "h_id t = d_tokenId d"
    "tokenService s' = Some ts'" "ts_initialized ts'"
    "tokens ts' = AList.update (h_id t) tk (tokens ts)"
    "t_valid tk" "t_expiresAt tk = h_expiresAt t"
    "sessions s' = AList.update (h_id t)
        \<lparr>se_user = r, se_tokenId = h_id t, se_createdAt = d_sessionCreatedAt d\<rparr> (sessions s)"
    "currentUser s' = Some r" "heap s' = heap s @ [u]" "as_initialized s'"
  using assms
  by (auto simp: authenticate_def createToken_def Let_def split: if_splits option.splits)

text \<open>
  C10. Two successful \<open>authenticate\<close> calls in a row, with session tokens \<open>t1\<close> then
  \<open>t2\<close> of different ids, on a service whose session Map has one entry per key,
  allocate two different user objects and leave the second as current user.
  The \<open>logout\<close> that follows succeeds, clears the current user and removes the session
  of \<open>t2\<close>; the session of \<open>t1\<close> stays in the session Map with the first user, its
  token keeps \<open>valid = true\<close>, and \<open>validateSession(t1)\<close> is true at every clock reading up
  to the expiry of \<open>t1\<close>.
\<close>

theorem logout_keeps_earlier_session:
  assumes keys: "distinct (map fst (sessions s0))"
    and a1: "authenticate d1 s0 id1 cred1 m1 = Inr (AuthSuccess r1 u1 t1, s1)"
    and a2: "authenticate d2 s1 id2 cred2 m2 = Inr (AuthSuccess r2 u2 t2, s2)"
    and neq: "h_id t1 \<noteq> h_id t2"
    and unexpired: "now \<le> h_expiresAt t1"
  shows "r1 \<noteq> r2 \<and> currentUser s2 = Some r2 \<and>
     (\<exists>s3. logout s2 = Inr (True, s3) \<and> currentUser s3 = None \<and>
        map_of (sessions s3) (h_id t2) = None \<and>
        (\<exists>se. map_of (sessions s3) (h_id t1) = Some se \<and> se_user se = r1) \<and>
        (\<exists>ts tk. tokenService s3 = Some ts \<and> map_of (tokens ts) (h_id t1) = Some tk \<and> t_valid tk) \<and>
        validateSession now s3 (h_id t1) = Inr (True, s3))"
proof -
  from a1 obtain ts0 :: tokenService and ts1 :: tokenService and tk1 :: token where f1:
    "r1 = length (heap s0)" "tokenService s1 = Some ts1"
    "tokens ts1 = AList.update (h_id t1) tk1 (tokens ts0)"
    "t_valid tk1" "t_expiresAt tk1 = h_expiresAt t1"
    "sessions s1 = AList.update (h_id t1)
        \<lparr>se_user = r1, se_tokenId = h_id t1, se_createdAt = d_sessionCreatedAt d1\<rparr> (sessions s0)"
    "heap s1 = heap s0 @ [u1]"
    by (rule authenticate_success) blast
  from a2 obtain ts1' :: tokenService and ts2 :: tokenService and tk2 :: token where f2:
    "tokenService s1 = Some ts1'"
    "r2 = length (heap s1)" "tokenService s2 = Some ts2" "ts_initialized ts2"
    "tokens ts2 = AList.update (h_id t2) tk2 (tokens ts1')"
    "sessions s2 = AList.update (h_id t2)
        \<lparr>se_user = r2, se_tokenId = h_id t2, se_createdAt = d_sessionCreatedAt d2\<rparr> (sessions s1)"
    "currentUser s2 = Some r2" "as_initialized s2"
    by (rule authenticate_success) blast
  let ?se1 = "\<lparr>se_user = r1, se_tokenId = h_id t1, se_createdAt = d_sessionCreatedAt d1\<rparr>"
  let ?se2 = "\<lparr>se_user = r2, se_tokenId = h_id t2, se_createdAt = d_sessionCreatedAt d2\<rparr>"
  let ?k = "h_id t1"
  have refs: "r1 \<noteq> r2" using f1 f2 by simp
  have same: "ts1' = ts1" using f1(2) f2(1) by simp
  have d2: "distinct (map fst (sessions s2))"
    using keys f1 f2 by (simp add: distinct_update)
  have m1: "map_of (sessions s2) ?k = Some ?se1"
    using f1 f2 neq by (simp add: update_conv')
  have m2: "(h_id t2, ?se2) \<in> set (sessions s2)"
    using f2 d2 by (metis map_of_eq_Some_iff update_conv' fun_upd_same)
  have tk: "map_of (tokens ts2) ?k = Some tk1"
    using f1 f2 same neq by (simp add: update_conv')
  have only: "\<forall>(k', se') \<in> set (sessions s2). k' = ?k \<longrightarrow> Some (se_user se') \<noteq> Some r2"
  proof -
    have "se_user se' \<noteq> r2" if "(?k, se') \<in> set (sessions s2)" for se'
    proof -
      from that d2 m1 have "se' = ?se1" by (simp add: map_of_eq_Some_iff)
      with refs show ?thesis by simp
    qed
    then show ?thesis by auto
  qed
  obtain ok s' where rs: "revokeSessions (Some r2) (sessions s2) s2 = (ok, s')"
    by (cases "revokeSessions (Some r2) (sessions s2) s2")
  have ok: "ok" using revokeSessions_succeeds[OF f2(3) f2(4), of "Some r2" "sessions s2"] rs by simp
  let ?s3 = "s'\<lparr>currentUser := None, localStorage := map_option (\<lambda>item. None) (localStorage s')\<rparr>"
  have lo: "logout s2 = Inr (True, ?s3)"
    using f2 rs ok by (simp add: logout_def)
  have kept: "map_of (sessions s') ?k = Some ?se1"
    using revokeSessions_keeps_session[OF m1 only] rs by simp
  have gone: "map_of (sessions s') (h_id t2) = None"
    using revokeSessions_removes[OF m2, of "Some r2" s2] rs ok by simp
  obtain ts3 where t3: "tokenService s' = Some ts3" "map_of (tokens ts3) ?k = Some tk1"
    "ts_initialized ts3"
    using revokeSessions_keeps_token[OF f2(3) tk only] rs f2(4) by auto
  have ini: "as_initialized s'" using revokeSessions_frame[of "Some r2" "sessions s2" s2] rs f2 by simp
  have vs: "validateSession now ?s3 ?k = Inr (True, ?s3)"
    using kept t3 ini f1 unexpired by (simp add: validateSession_def validateToken_def)
  show ?thesis using refs f2(7) lo kept gone t3 f1(4) vs by auto
qed

theorem logout_keeps_earlier_session_witness:
  "\<exists>r1 u1 t1 s1 r2 u2 t2 s2 s3.
     distinct (map fst (sessions sampleAuth)) \<and>
     authenticate (sampleDraws ''usr_1'' ''tok_1'') sampleAuth ''a@b.com'' ''longenoughpassword'' ''password''
       = Inr (AuthSuccess r1 u1 t1, s1) \<and>
     authenticate (sampleDraws ''usr_2'' ''tok_2'') s1 ''a@b.com'' ''longenoughpassword'' ''password''
       = Inr (AuthSuccess r2 u2 t2, s2) \<and>
     h_id t1 \<noteq> h_id t2 \<and> 2000 \<le> h_expiresAt t1 \<and>
     logout s2 = Inr (True, s3) \<and>
     validateSession 2000 s3 (h_id t1) = Inr (True, s3)"
proof -
  let ?d1 = "sampleDraws ''usr_1'' ''tok_1''" and ?d2 = "sampleDraws ''usr_2'' ''tok_2''"
  obtain r1 u1 t1 s1 where a1:
    "authenticate ?d1 sampleAuth ''a@b.com'' ''longenoughpassword'' ''password''
       = Inr (AuthSuccess r1 u1 t1, s1)"
    and s1: "as_initialized s1" "tokenService s1 = Some \<lparr>tokens = [(''tok_1'',
        \<lparr>t_id = ''tok_1'', t_type = ''session'', t_value = ''ab'',
          t_payload = [(''userId'', ''usr_1''), (''identifier'', ''a@b.com''), (''method'', ''password'')],
          t_createdAt = 1000, t_expiresAt = 86401000, t_valid = True\<rparr>)], ts_initialized = True\<rparr>"
    and t1: "h_id t1 = ''tok_1''" "h_expiresAt t1 = 86401000"
    by (simp add: sampleAuth_eq sampleDraws_def authenticate_def validateCredentials_def
        createToken_def Let_def)
  obtain r2 u2 t2 s2 where a2:
    "authenticate ?d2 s1 ''a@b.com'' ''longenoughpassword'' ''password''
       = Inr (AuthSuccess r2 u2 t2, s2)"
    and t2: "h_id t2 = ''tok_2''"
    using s1
    by (simp add: sampleDraws_def authenticate_def validateCredentials_def createToken_def Let_def)
  have k: "distinct (map fst (sessions sampleAuth))" by (simp add: sampleAuth_eq)
  have n: "h_id t1 \<noteq> h_id t2" using t1 t2 by simp
  have u: "2000 \<le> h_expiresAt t1" using t1 by simp
  from logout_keeps_earlier_session[OF k a1 a2 n u] k a1 a2 n u show ?thesis by blast
qed

section \<open>Properties of the Machines Adapter\<close>

lemma flowRegistry_eq:
  "flowRegistry = \<lparr>ma_initialized = True, machines = [''flow'' \<mapsto> flowMachine],
      states = [''flow'' \<mapsto> Some ''idle''], transitions = Map.empty\<rparr>"
  by (simp add: flowRegistry_def registerMachine_def ma_initialize_def newMachinesAdapter_def
      flowConfig_def flowMachine_def getMachine_def Let_def)

text \<open>
  C3, as stated, fails: on an initialized registry, \<open>transition\<close> for a machine id that is
  not registered raises \<open>Machine not found\<close>; no result object is returned.
\<close>

theorem transition_unknown_machine_counterexample:
  "transition 20 flowRegistry ''ghost'' ''START'' [] = Inl (MachineNotFound ''ghost'')"
  by (simp add: flowRegistry_eq transition_def)

text \<open>
  C3, amended. On an initialized registry, \<open>transition\<close> with a machine id that is not
  registered raises the error \<open>Machine not found: <id>\<close>; it returns no result value.
\<close>

theorem transition_unknown_machine_raises:
  assumes "ma_initialized s" and "machines s machineId = None"
  shows "transition now s machineId event eventData = Inl (MachineNotFound machineId)"
  using assms by (simp add: transition_def)

theorem transition_unknown_machine_raises_witness:
  "ma_initialized flowRegistry \<and> machines flowRegistry ''ghost'' = None \<and>
   transition 20 flowRegistry ''ghost'' ''START'' [(''k'', ''v'')] = Inl (MachineNotFound ''ghost'')"
  using transition_unknown_machine_raises[of flowRegistry "''ghost''" 20 "''START''" "[(''k'', ''v'')]"]
  by (simp add: flowRegistry_eq)

text \<open>
  A state's table without an entry for the event, for event names that
  \<open>Object.prototype\<close> does not define: \<open>transition\<close> returns the failure result with the
  current state of before the call and changes nothing in the registry.
\<close>

lemma transition_without_entry:
  assumes "ma_initialized s" and "machines s machineId = Some m"
    and "m_states m (key (m_currentState m)) = Some stateConfig"
    and "case sc_on stateConfig of None \<Rightarrow> True | Some tbl \<Rightarrow> map_of tbl event = None"
    and "event \<notin> set objectPrototype"
  shows "transition now s machineId event eventData
           = Inr (TransitionFailed (m_currentState m) ''Invalid transition'', s)"
  using assms by (simp add: transition_def getProperty_def split: option.splits)

lemma transition_stop_in_idle:
  "transition 20 flowRegistry ''flow'' ''STOP'' []
     = Inr (TransitionFailed (Some ''idle'') ''Invalid transition'', flowRegistry)"
proof -
  have a: "ma_initialized flowRegistry" "machines flowRegistry ''flow'' = Some flowMachine"
    by (simp_all add: flowRegistry_eq)
  have b: "m_states flowMachine (key (m_currentState flowMachine))
     = Some \<lparr>sc_on = Some [(''START'', TString ''running'')]\<rparr>"
    by (simp add: flowMachine_def key_def)
  have c: "case sc_on \<lparr>sc_on = Some [(''START'', TString ''running'')]\<rparr> of None \<Rightarrow> True
     | Some tbl \<Rightarrow> map_of tbl ''STOP'' = None" by simp
  have d: "m_currentState flowMachine = Some ''idle''" by (simp add: flowMachine_def)
  have e: "''STOP'' \<notin> set objectPrototype" by (simp add: objectPrototype_def)
  from transition_without_entry[OF a b c e, of 20 "[]"] d show ?thesis by simp
qed

text \<open>
  C4, at the failing input. The machine is in \<open>idle\<close>, whose table has the one entry
  \<open>START\<close>. The event \<open>constructor\<close> has no entry in that table, yet the read
  \<open>stateConfig.on['constructor']\<close> finds the inherited member, which is truthy:
  \<open>transition\<close> reports success, sets \<open>currentState\<close> to \<open>undefined\<close> and appends a record
  to the history. The claim says the result is the failure \<open>Invalid transition\<close> and the
  machine is unchanged.
\<close>

theorem transition_inherited_event:
  "transition 20 flowRegistry ''flow'' ''constructor'' []
     = Inr (TransitionDone (Some ''idle'') None ''constructor'',
            flowRegistry
              \<lparr>machines := [''flow'' \<mapsto> flowMachine\<lparr>m_currentState := None\<rparr>],
               states := [''flow'' \<mapsto> None],
               transitions := [''flow'' \<mapsto> [\<lparr>tr_machineId = ''flow'', tr_from = Some ''idle'',
                  tr_to = None, tr_event = ''constructor'', tr_eventData = [],
                  tr_timestamp = 20\<rparr>]]\<rparr>)"
  by (simp add: flowRegistry_eq transition_def getProperty_def objectPrototype_def flowMachine_def
      key_def Let_def)

text \<open>
  C8. When a machine id has a non-empty transition history, \<open>registerMachine\<close> with the
  same id stores the new definition with \<open>currentState\<close> at the new \<open>initialState\<close> and
  leaves the history of that id untouched: \<open>getTransitionHistory\<close> returns afterwards what
  it returned before, for every limit, and all the old records for a limit of their number.
\<close>

theorem registerMachine_keeps_history:
  assumes "ma_initialized s" and "transitions s machineId = Some h" and "h \<noteq> []"
  shows "\<exists>view s'. registerMachine now s machineId cfg = Inr (view, s') \<and>
           (\<exists>m. machines s' machineId = Some m \<and> m_currentState m = c_initialState cfg \<and>
                 m_initialState m = c_initialState cfg \<and>
                 m_states m = (case c_states cfg of None \<Rightarrow> Map.empty | Some st \<Rightarrow> st) \<and>
                 m_context m = (case c_context cfg of None \<Rightarrow> [] | Some c \<Rightarrow> c)) \<and>
           getCurrentState s' machineId = Inr (Some (c_initialState cfg)) \<and>
           transitions s' machineId = Some h \<and>
           getTransitionHistory s' machineId limit = getTransitionHistory s machineId limit \<and>
           getTransitionHistory s' machineId (int (length h)) = Inr h"
  using assms
  by (simp add: registerMachine_def getMachine_def getCurrentState_def getTransitionHistory_def
      slice_from_def Let_def)

lemma flowStarted_eq:
  "flowStarted = \<lparr>ma_initialized = True,
      machines = [''flow'' \<mapsto> flowMachine\<lparr>m_currentState := Some ''running''\<rparr>],
      states = [''flow'' \<mapsto> Some ''running''],
      transitions = [''flow'' \<mapsto> [\<lparr>tr_machineId = ''flow'', tr_from = Some ''idle'',
         tr_to = Some ''running'', tr_event = ''START'', tr_eventData = [], tr_timestamp = 20\<rparr>]]\<rparr>"
  by (simp add: flowStarted_def flowRegistry_eq transition_def getProperty_def flowMachine_def
      key_def Let_def)

theorem registerMachine_keeps_history_witness:
  "ma_initialized flowStarted \<and>
   transitions flowStarted ''flow'' = Some [\<lparr>tr_machineId = ''flow'', tr_from = Some ''idle'',
         tr_to = Some ''running'', tr_event = ''START'', tr_eventData = [], tr_timestamp = 20\<rparr>] \<and>
   (\<exists>view s'. registerMachine 30 flowStarted ''flow'' flowConfig = Inr (view, s') \<and>
      getCurrentState s' ''flow'' = Inr (Some (Some ''idle'')) \<and>
      getTransitionHistory s' ''flow'' 10 = Inr [\<lparr>tr_machineId = ''flow'', tr_from = Some ''idle'',
         tr_to = Some ''running'', tr_event = ''START'', tr_eventData = [], tr_timestamp = 20\<rparr>])"
proof -
  let ?h = "[\<lparr>tr_machineId = ''flow'', tr_from = Some ''idle'',
         tr_to = Some ''running'', tr_event = ''START'', tr_eventData = [], tr_timestamp = 20\<rparr>]"
  have a: "ma_initialized flowStarted" "transitions flowStarted ''flow'' = Some ?h" "?h \<noteq> []"
    by (simp_all add: flowStarted_eq)
  have b: "getTransitionHistory flowStarted ''flow'' 10 = Inr ?h"
    by (simp add: flowStarted_eq getTransitionHistory_def slice_from_def)
  have c: "c_initialState flowConfig = Some ''idle''" by (simp add: flowConfig_def)
  from registerMachine_keeps_history[OF a, of 30 flowConfig 10] a b c show ?thesis by auto
qed

section \<open>Properties of the Integration Listener\<close>

subsection \<open>Concrete runs\<close>

text \<open>The definitions a concrete run unfolds.\<close>

lemmas bus_eval =
  newBus_def initialize_def on_def off_def emit_def processQueue_def step_def removeAll_def
  clearListeners_def readArray_def listenersOf_def getListeners_def
  sortBy_def byPriority_def Let_def onceOptions_def plainOptions_def priority_def

lemma invokedIds_simps [simp]:
  "invokedIds [] = []"
  "invokedIds (tr @ tr') = invokedIds tr @ invokedIds tr'"
  "invokedIds (Invoked l e # tr) = e # invokedIds tr"
  "invokedIds (Emitted e b # tr) = invokedIds tr"
  "invokedIds (Dispatched e # tr) = invokedIds tr"
  "invokedIds (Returned e # tr) = invokedIds tr"
  by (simp_all add: invokedIds_def map_filter_def)

lemma emit_busy:
  "b_initialized s \<Longrightarrow> processing s \<Longrightarrow>
   emit s ty d = Inr (s\<lparr>eventQueue := eventQueue s @ [\<lparr>e_type = ty, e_data = d, e_id = nextEventId s\<rparr>],
                        nextEventId := nextEventId s + 1,
                        trace := trace s @ [Emitted (nextEventId s) True, Returned (nextEventId s)]\<rparr>)"
  by (simp add: emit_def processQueue_def Let_def)

lemma emit_idle:
  "b_initialized s \<Longrightarrow> \<not> processing s \<Longrightarrow>
   emit s ty d = Inr (s\<lparr>eventQueue := eventQueue s @ [\<lparr>e_type = ty, e_data = d, e_id = nextEventId s\<rparr>],
                        nextEventId := nextEventId s + 1,
                        trace := trace s @ [Emitted (nextEventId s) False],
                        processing := True,
                        drains := drains s @ [(nextEventId s, LoopHead)]\<rparr>)"
  by (simp add: emit_def processQueue_def Let_def)

lemma emit_uninitialized:
  "\<not> b_initialized s \<Longrightarrow> emit s ty d = Inl (NotInitialized ''IntegrationListener'')"
  by (simp add: emit_def)

subsection \<open>The invariant of the drain loop\<close>

lemma sameDrain_refl [simp]: "sameDrain s s"
  by (simp add: sameDrain_def)

lemma sameDrain_trans: "sameDrain s s1 \<Longrightarrow> sameDrain s1 s2 \<Longrightarrow> sameDrain s s2"
  by (simp add: sameDrain_def)

lemma on_frame: "on s ty h opts = Inr (i, s') \<Longrightarrow> sameDrain s s'"
  by (auto simp: on_def Let_def sameDrain_def split: if_splits option.splits)

lemma off_frame: "off s i = Inr (found, s') \<Longrightarrow> sameDrain s s'"
  by (auto simp: off_def sameDrain_def split: if_splits option.splits)

lemma clearListeners_frame: "clearListeners s ty = Inr (n, s') \<Longrightarrow> sameDrain s s'"
  by (auto simp: clearListeners_def Let_def sameDrain_def split: if_splits option.splits)

lemma removeAll_frame: "sameDrain s (removeAll is s)"
  unfolding removeAll_def
proof (induction "is" arbitrary: s)
  case Nil
  then show ?case by simp
next
  case (Cons i "is")
  show ?case
  proof (cases "off s i")
    case (Inl e)
    then show ?thesis using Cons[of s] by simp
  next
    case (Inr p)
    obtain found s' where "p = (found, s')" by (cases p)
    with Inr off_frame[of s i found s'] Cons[of s'] show ?thesis
      by (auto intro: sameDrain_trans)
  qed
qed

text \<open>
  What an action of a handler does while a drain is in progress: it raises, or it is an
  \<open>emit\<close>, which only queues its event, or it leaves queue, drains and trace alone.
\<close>

lemma act_cases:
  assumes "b_initialized s" "processing s"
  obtains (raises) "act a s = None"
  | (emits) ty d where "a = Emit ty d"
      "act a s = Some (s\<lparr>eventQueue := eventQueue s @ [\<lparr>e_type = ty, e_data = d, e_id = nextEventId s\<rparr>],
                        nextEventId := nextEventId s + 1,
                        trace := trace s @ [Emitted (nextEventId s) True, Returned (nextEventId s)]\<rparr>)"
  | (quiet) s' where "act a s = Some s'" "sameDrain s s'"
proof (cases a)
  case (Emit ty d)
  with assms emits show ?thesis by (simp add: emit_busy)
next
  case (On ty h opts)
  show ?thesis
  proof (cases "on s ty h opts")
    case (Inl e)
    with On raises show ?thesis by simp
  next
    case (Inr p)
    obtain i s' where "p = (i, s')" by (cases p)
    with Inr On quiet[of s'] on_frame[of s ty h opts i s'] show ?thesis by simp
  qed
next
  case (Off i)
  show ?thesis
  proof (cases "off s i")
    case (Inl e)
    with Off raises show ?thesis by simp
  next
    case (Inr p)
    obtain found s' where "p = (found, s')" by (cases p)
    with Inr Off quiet[of s'] off_frame[of s i found s'] show ?thesis by simp
  qed
next
  case (ClearListeners ty)
  show ?thesis
  proof (cases "clearListeners s ty")
    case (Inl e)
    with ClearListeners raises show ?thesis by simp
  next
    case (Inr p)
    obtain n s' where "p = (n, s')" by (cases p)
    with Inr ClearListeners quiet[of s'] clearListeners_frame[of s ty n s'] show ?thesis by simp
  qed
next
  case Raise
  with raises show ?thesis by simp
qed

text \<open>One step of an activation, by position, while \<open>processing\<close> is set.\<close>

lemma resume_cases:
  assumes "b_initialized s" "processing s" "resume owner pos s = (r, s')"
  obtains
    (ends) "pos = LoopHead" "eventQueue s = []" "r = None"
      "s' = s\<lparr>processing := False, trace := trace s @ [Returned owner]\<rparr>"
  | (skips) ev q where "pos = LoopHead" "eventQueue s = ev # q" "r = Some LoopHead"
      "s' = s\<lparr>eventQueue := q, trace := trace s @ [Dispatched (e_id ev)]\<rparr>"
  | (shifts) ev q a where "pos = LoopHead" "eventQueue s = ev # q"
      "r = Some (NextListener ev a 0 [])" "s' = s\<lparr>eventQueue := q\<rparr>"
  | (calls) ev a i rm l where "pos = NextListener ev a i rm"
      "r = Some (InHandler ev a (i + 1) rm l (l_handler l))"
      "s' = s\<lparr>trace := trace s @ [Invoked (lid l) (e_id ev)]\<rparr>"
  | (finishes) ev a i rm s1 where "pos = NextListener ev a i rm" "r = Some LoopHead"
      "sameDrain s s1" "s' = s1\<lparr>trace := trace s1 @ [Dispatched (e_id ev)]\<rparr>"
  | (handled) ev a i rm l acts rm' where "pos = InHandler ev a i rm l acts"
      "r = Some (NextListener ev a i rm')" "s' = s"
  | (emitted) ev a i rm l acts acts' ty d where "pos = InHandler ev a i rm l acts"
      "r = Some (InHandler ev a i rm l acts')"
      "s' = s\<lparr>eventQueue := eventQueue s @ [\<lparr>e_type = ty, e_data = d, e_id = nextEventId s\<rparr>],
                        nextEventId := nextEventId s + 1,
                        trace := trace s @ [Emitted (nextEventId s) True, Returned (nextEventId s)]\<rparr>"
  | (acted) ev a i rm l acts acts' where "pos = InHandler ev a i rm l acts"
      "r = Some (InHandler ev a i rm l acts')" "sameDrain s s'"
proof (cases pos)
  case LoopHead
  show ?thesis
  proof (cases "eventQueue s")
    case Nil
    with LoopHead assms(3) ends show ?thesis by auto
  next
    case (Cons ev q)
    with LoopHead assms(3) skips[of ev q] shifts[of ev q] show ?thesis
      by (auto split: option.splits if_splits)
  qed
next
  case (NextListener ev a i rm)
  show ?thesis
  proof (cases "i < length (readArray (arrays s) a)")
    case True
    with NextListener assms(3) calls[of ev a i rm] show ?thesis by (auto simp: Let_def)
  next
    case False
    with NextListener assms(3) finishes[of ev a i rm "removeAll rm s"] removeAll_frame[of s rm]
    show ?thesis by (auto simp: Let_def)
  qed
next
  case (InHandler ev a i rm l acts)
  show ?thesis
  proof (cases acts)
    case Nil
    with InHandler assms(3) handled[of ev a i rm l acts] show ?thesis by auto
  next
    case (Cons x acts')
    from assms(1,2) show ?thesis
    proof (cases rule: act_cases[where a = x])
      case raises
      with Cons InHandler assms(3) handled[of ev a i rm l acts] show ?thesis by auto
    next
      case (emits ty d)
      with Cons InHandler assms(3) emitted[of ev a i rm l acts acts' ty d] show ?thesis by auto
    next
      case (quiet s1)
      with Cons InHandler assms(3) acted[of ev a i rm l acts acts'] show ?thesis by auto
    qed
  qed
qed


lemma resume_structure:
  assumes "b_initialized s" "processing s" "resume owner pos s = (r, s')"
  shows "b_initialized s' \<and> drains s' = drains s \<and>
         (case r of None \<Rightarrow> \<not> processing s' \<and> eventQueue s' = [] | Some p \<Rightarrow> processing s')"
  using assms
  by (cases rule: resume_cases) (insert assms(1,2), auto simp: sameDrain_def)

lemma oneDrain_cases:
  assumes "oneDrain s"
  obtains "drains s = []" "\<not> processing s" "eventQueue s = []"
  | owner pos where "drains s = [(owner, pos)]" "processing s" "b_initialized s"
proof (cases "drains s")
  case Nil
  with assms that(1) show ?thesis by (simp add: oneDrain_def)
next
  case (Cons f fs)
  with assms have "fs = []" by (simp add: oneDrain_def)
  with Cons assms that(2)[of "fst f" "snd f"] show ?thesis by (simp add: oneDrain_def)
qed

text \<open>A step under the invariant: nothing happens, or the one activation moves on.\<close>

lemma step_cases:
  assumes "oneDrain s"
  obtains (idle) "step k s = s"
  | (moves) owner pos r s' where "drains s = [(owner, pos)]" "processing s" "b_initialized s"
      "resume owner pos s = (r, s')"
      "step k s = s'\<lparr>drains := (case r of None \<Rightarrow> [] | Some p \<Rightarrow> [(owner, p)])\<rparr>"
  using assms
proof (cases rule: oneDrain_cases)
  case 1
  with idle show ?thesis by (simp add: step_def)
next
  case (2 owner pos)
  show ?thesis
  proof (cases k)
    case (Suc n)
    with 2 idle show ?thesis by (simp add: step_def)
  next
    case 0
    obtain r s' where r: "resume owner pos s = (r, s')" by (cases "resume owner pos s")
    from resume_structure[OF 2(3) 2(2) r] 2(1) have "drains s' = [(owner, pos)]" by simp
    with 2 r 0 have "step k s = s'\<lparr>drains := (case r of None \<Rightarrow> [] | Some p \<Rightarrow> [(owner, p)])\<rparr>"
      by (cases r) (simp_all add: step_def)
    with 2 r moves show ?thesis by blast
  qed
qed

lemma oneDrain_step:
  assumes "oneDrain s"
  shows "oneDrain (step k s)"
  using assms
proof (cases rule: step_cases[where k = k])
  case idle
  with assms show ?thesis by simp
next
  case (moves owner pos r s')
  from resume_structure[OF moves(3) moves(2) moves(4)] moves(5) show ?thesis
    by (cases r) (auto simp: oneDrain_def)
qed

lemma oneDrain_emit:
  assumes "oneDrain s" "emit s ty d = Inr s'"
  shows "oneDrain s'"
  using assms(1)
proof (cases rule: oneDrain_cases)
  case 1
  with assms(2) show ?thesis
    by (cases "b_initialized s") (auto simp: emit_idle emit_uninitialized oneDrain_def)
next
  case (2 owner pos)
  with assms(2) show ?thesis by (auto simp: emit_busy oneDrain_def)
qed

lemma oneDrain_frame: "oneDrain s \<Longrightarrow> sameDrain s s' \<Longrightarrow> oneDrain s'"
  by (simp add: oneDrain_def sameDrain_def)

text \<open>The calls that only register or remove listeners.\<close>

lemma exec_quiet:
  assumes "c = CallOn ty h opts \<or> c = CallOff i \<or> c = CallClear t"
  shows "sameDrain s (exec c s)"
  using assms on_frame[of s ty h opts] off_frame[of s i] clearListeners_frame[of s t]
  by (auto split: sum.splits)

lemma oneDrain_exec:
  assumes "oneDrain s"
  shows "oneDrain (exec c s)"
proof (cases c)
  case CallInitialize
  with assms show ?thesis by (auto simp: initialize_def oneDrain_def)
next
  case (CallOn ty h opts)
  with assms exec_quiet[of c ty h opts] show ?thesis by (auto intro: oneDrain_frame)
next
  case (CallOff i)
  with assms exec_quiet[of c _ _ _ i] show ?thesis by (auto intro: oneDrain_frame)
next
  case (CallClear t)
  with assms exec_quiet[of c _ _ _ _ t] show ?thesis by (auto intro: oneDrain_frame)
next
  case (CallEmit ty d)
  with assms show ?thesis by (auto split: sum.splits intro: oneDrain_emit)
next
  case (Tick k)
  with assms show ?thesis by (auto intro: oneDrain_step)
qed

lemma oneDrain_newBus: "oneDrain newBus"
  by (simp add: oneDrain_def newBus_def)

lemma ordered_drop:
  "ordered (xs @ y # ys) n \<Longrightarrow> ordered (xs @ ys) n"
  by (auto simp: ordered_def sorted_append)

lemma ordered_repeat:
  "ordered (xs @ y # ys) n \<Longrightarrow> ordered ((xs @ [y]) @ y # ys) n"
  by (auto simp: ordered_def sorted_append)

lemma ordered_push:
  "ordered xs n \<Longrightarrow> ordered (xs @ [n]) (Suc n)"
  by (auto simp: ordered_def sorted_append less_imp_le less_SucI)

lemma resume_fifo:
  assumes "b_initialized s" "processing s" "resume owner pos s = (r, s')"
    "ordered (invokedIds (trace s) @ positionIds pos @ map e_id (eventQueue s)) (nextEventId s)"
  shows "ordered (invokedIds (trace s') @ (case r of None \<Rightarrow> [] | Some p \<Rightarrow> positionIds p)
                    @ map e_id (eventQueue s')) (nextEventId s')"
  using assms(1,2,3)
proof (cases rule: resume_cases)
  case ends
  with assms(4) show ?thesis by simp
next
  case (skips ev q)
  with assms(4) have "ordered (invokedIds (trace s) @ e_id ev # map e_id q) (nextEventId s)" by simp
  from ordered_drop[OF this] skips show ?thesis by simp
next
  case (shifts ev q a)
  with assms(4) show ?thesis by simp
next
  case (calls ev a i rm l)
  with assms(4)
  have "ordered (invokedIds (trace s) @ e_id ev # map e_id (eventQueue s)) (nextEventId s)" by simp
  from ordered_repeat[OF this] calls show ?thesis by simp
next
  case (finishes ev a i rm s1)
  with assms(4)
  have "ordered (invokedIds (trace s) @ e_id ev # map e_id (eventQueue s)) (nextEventId s)" by simp
  from ordered_drop[OF this] finishes show ?thesis by (simp add: sameDrain_def)
next
  case (handled ev a i rm l acts rm')
  with assms(4) show ?thesis by simp
next
  case (emitted ev a i rm l acts acts' ty d)
  with assms(4)
  have "ordered (invokedIds (trace s) @ e_id ev # map e_id (eventQueue s)) (nextEventId s)" by simp
  from ordered_push[OF this] emitted show ?thesis by simp
next
  case (acted ev a i rm l acts acts')
  with assms(4) show ?thesis by (simp add: sameDrain_def)
qed

lemma fifo_single:
  "drains s = [(owner, pos)] \<Longrightarrow>
   fifo s = ordered (invokedIds (trace s) @ positionIds pos @ map e_id (eventQueue s)) (nextEventId s)"
  by (simp add: fifo_def pendingIds_def ordered_def)

lemma fifo_none:
  "drains s = [] \<Longrightarrow>
   fifo s = ordered (invokedIds (trace s) @ map e_id (eventQueue s)) (nextEventId s)"
  by (simp add: fifo_def pendingIds_def ordered_def)

lemma fifo_step:
  assumes "oneDrain s" "fifo s"
  shows "fifo (step k s)"
  using assms(1)
proof (cases rule: step_cases[where k = k])
  case idle
  with assms show ?thesis by simp
next
  case (moves owner pos r s')
  from assms(2) have "ordered (invokedIds (trace s) @ positionIds pos @ map e_id (eventQueue s)) (nextEventId s)"
    by (simp add: fifo_single[OF moves(1)])
  from resume_fifo[OF moves(3) moves(2) moves(4) this] moves(5) show ?thesis
    by (cases r) (simp_all add: fifo_none fifo_single)
qed

lemma fifo_emit:
  assumes "oneDrain s" "fifo s" "emit s ty d = Inr s'"
  shows "fifo s'"
  using assms(1)
proof (cases rule: oneDrain_cases)
  case 1
  show ?thesis
  proof (cases "b_initialized s")
    case True
    with 1 assms(3) have s': "s' = s\<lparr>eventQueue := eventQueue s @ [\<lparr>e_type = ty, e_data = d, e_id = nextEventId s\<rparr>],
                        nextEventId := nextEventId s + 1,
                        trace := trace s @ [Emitted (nextEventId s) False],
                        processing := True,
                        drains := drains s @ [(nextEventId s, LoopHead)]\<rparr>"
      by (simp add: emit_idle)
    have "drains s' = [(nextEventId s, LoopHead)]" using 1 s' by simp
    from fifo_single[OF this] assms(2) 1 show ?thesis
      by (auto simp: fifo_none s' ordered_def sorted_append less_imp_le less_SucI)
  next
    case False
    with assms(3) show ?thesis by (simp add: emit_uninitialized)
  qed
next
  case (2 owner pos)
  with assms(3) have s': "s' = s\<lparr>eventQueue := eventQueue s @ [\<lparr>e_type = ty, e_data = d, e_id = nextEventId s\<rparr>],
                        nextEventId := nextEventId s + 1,
                        trace := trace s @ [Emitted (nextEventId s) True, Returned (nextEventId s)]\<rparr>"
    by (simp add: emit_busy)
  have "drains s' = [(owner, pos)]" using 2 s' by simp
  from fifo_single[OF this] assms(2) show ?thesis
    by (auto simp: fifo_single[OF 2(1)] s' ordered_def sorted_append less_imp_le less_SucI)
qed

lemma fifo_frame: "fifo s \<Longrightarrow> sameDrain s s' \<Longrightarrow> fifo s'"
  by (simp add: fifo_def pendingIds_def sameDrain_def)

lemma fifo_exec:
  assumes "oneDrain s" "fifo s"
  shows "fifo (exec c s)"
proof (cases c)
  case CallInitialize
  show ?thesis
  proof (cases "b_initialized s")
    case True
    with assms CallInitialize show ?thesis by (simp add: initialize_def)
  next
    case False
    with assms(1) have "drains s = []" "eventQueue s = []" by (auto simp: oneDrain_def)
    with False assms(2) CallInitialize show ?thesis
      by (simp add: initialize_def fifo_def pendingIds_def)
  qed
next
  case (CallOn ty h opts)
  with assms exec_quiet[of c ty h opts] show ?thesis by (auto intro: fifo_frame)
next
  case (CallOff i)
  with assms exec_quiet[of c _ _ _ i] show ?thesis by (auto intro: fifo_frame)
next
  case (CallClear t)
  with assms exec_quiet[of c _ _ _ _ t] show ?thesis by (auto intro: fifo_frame)
next
  case (CallEmit ty d)
  with assms show ?thesis by (auto split: sum.splits intro: fifo_emit)
next
  case (Tick k)
  with assms show ?thesis by (auto intro: fifo_step)
qed

lemma fifo_newBus: "fifo newBus"
  by (simp add: fifo_def pendingIds_def newBus_def)

lemma emittedIds_simps [simp]:
  "emittedIds [] = []"
  "emittedIds (tr @ tr') = emittedIds tr @ emittedIds tr'"
  "emittedIds (Invoked l e # tr) = emittedIds tr"
  "emittedIds (Emitted e b # tr) = e # emittedIds tr"
  "emittedIds (Dispatched e # tr) = emittedIds tr"
  "emittedIds (Returned e # tr) = emittedIds tr"
  by (simp_all add: emittedIds_def map_filter_def)

lemma emittedIds_member: "Emitted e b \<in> set tr \<Longrightarrow> e \<in> set (emittedIds tr)"
  by (induction tr) (auto simp: emittedIds_def map_filter_def)

lemma numbered_bound: "numbered s \<Longrightarrow> Emitted e b \<in> set (trace s) \<Longrightarrow> e < nextEventId s"
  by (auto simp: numbered_def dest!: emittedIds_member)

lemma resume_numbered:
  assumes "b_initialized s" "processing s" "resume owner pos s = (r, s')"
    "emittedIds (trace s) = [0..<nextEventId s]"
  shows "emittedIds (trace s') = [0..<nextEventId s']"
  using assms(1,2,3)
  by (cases rule: resume_cases) (insert assms(4), auto simp: sameDrain_def)

lemma numbered_frame: "numbered s \<Longrightarrow> sameDrain s s' \<Longrightarrow> numbered s'"
  by (simp add: numbered_def sameDrain_def)

lemma numbered_exec:
  assumes "oneDrain s" "numbered s"
  shows "numbered (exec c s)"
proof (cases c)
  case CallInitialize
  with assms show ?thesis by (auto simp: initialize_def numbered_def)
next
  case (CallOn ty h opts)
  with assms exec_quiet[of c ty h opts] show ?thesis by (auto intro: numbered_frame)
next
  case (CallOff i)
  with assms exec_quiet[of c _ _ _ i] show ?thesis by (auto intro: numbered_frame)
next
  case (CallClear t)
  with assms exec_quiet[of c _ _ _ _ t] show ?thesis by (auto intro: numbered_frame)
next
  case (CallEmit ty d)
  with assms(2) show ?thesis
    by (cases "b_initialized s"; cases "processing s")
       (auto simp: numbered_def emit_idle emit_busy emit_uninitialized)
next
  case (Tick k)
  from assms(1) show ?thesis
  proof (cases rule: step_cases[where k = k])
    case idle
    with assms Tick show ?thesis by simp
  next
    case (moves owner pos r s')
    from assms(2) have "emittedIds (trace s) = [0..<nextEventId s]" by (simp add: numbered_def)
    from resume_numbered[OF moves(3) moves(2) moves(4) this] moves(5) Tick show ?thesis
      by (simp add: numbered_def)
  qed
qed

lemma numbered_newBus: "numbered newBus"
  by (simp add: numbered_def newBus_def)

lemma accounted_single:
  "drains s = [(owner, pos)] \<Longrightarrow>
   accounted s = covered (trace s) (positionIds pos @ map e_id (eventQueue s)) (nextEventId s)"
  by (simp add: accounted_def covered_def pendingIds_def)

lemma accounted_none:
  "drains s = [] \<Longrightarrow> accounted s = covered (trace s) (map e_id (eventQueue s)) (nextEventId s)"
  by (simp add: accounted_def covered_def pendingIds_def)

lemma covered_dispatch:
  "covered tr (e # ids) n \<Longrightarrow> covered (tr @ [Dispatched e]) ids n"
  by (auto simp: covered_def)

lemma covered_push:
  "covered tr ids n \<Longrightarrow> covered (tr @ tr') (ids @ [n]) (Suc n)"
  by (auto simp: covered_def less_Suc_eq)

lemma covered_more:
  "covered tr ids n \<Longrightarrow> covered (tr @ tr') ids n"
  by (auto simp: covered_def)

lemma resume_accounted:
  assumes "b_initialized s" "processing s" "resume owner pos s = (r, s')"
    "covered (trace s) (positionIds pos @ map e_id (eventQueue s)) (nextEventId s)"
  shows "covered (trace s') ((case r of None \<Rightarrow> [] | Some p \<Rightarrow> positionIds p)
                    @ map e_id (eventQueue s')) (nextEventId s')"
  using assms(1,2,3)
proof (cases rule: resume_cases)
  case ends
  with assms(4) show ?thesis by (auto intro: covered_more)
next
  case (skips ev q)
  with assms(4) have "covered (trace s) (e_id ev # map e_id q) (nextEventId s)" by simp
  from covered_dispatch[OF this] skips show ?thesis by simp
next
  case (shifts ev q a)
  with assms(4) show ?thesis by simp
next
  case (calls ev a i rm l)
  with assms(4) have "covered (trace s) (e_id ev # map e_id (eventQueue s)) (nextEventId s)" by simp
  from covered_more[OF this] calls show ?thesis by simp
next
  case (finishes ev a i rm s1)
  with assms(4) have "covered (trace s) (e_id ev # map e_id (eventQueue s)) (nextEventId s)" by simp
  from covered_dispatch[OF this] finishes show ?thesis by (simp add: sameDrain_def)
next
  case (handled ev a i rm l acts rm')
  with assms(4) show ?thesis by simp
next
  case (emitted ev a i rm l acts acts' ty d)
  with assms(4) have "covered (trace s) (e_id ev # map e_id (eventQueue s)) (nextEventId s)" by simp
  from covered_push[OF this] emitted show ?thesis by simp
next
  case (acted ev a i rm l acts acts')
  with assms(4) show ?thesis by (simp add: sameDrain_def)
qed

lemma returnsLate_append_other:
  assumes "returnsLate tr" "\<forall>e. Returned e \<notin> set tr'"
  shows "returnsLate (tr @ tr')"
  unfolding returnsLate_def
proof (intro allI impI, elim conjE)
  fix pre post e e' b
  assume eq: "tr @ tr' = pre @ Returned e # post" and em: "Emitted e False \<in> set pre"
    and e': "Emitted e' b \<in> set pre"
  from eq obtain us where
    "(tr = pre @ us \<and> us @ tr' = Returned e # post) \<or> (tr @ us = pre \<and> tr' = us @ Returned e # post)"
    by (auto simp: append_eq_append_conv2)
  then show "Dispatched e' \<in> set pre"
  proof
    assume a: "tr = pre @ us \<and> us @ tr' = Returned e # post"
    show ?thesis
    proof (cases us)
      case Nil
      with a assms(2) show ?thesis by auto
    next
      case (Cons u us')
      with a have "tr = pre @ Returned e # us'" by simp
      with assms(1) em e' show ?thesis unfolding returnsLate_def by blast
    qed
  next
    assume "tr @ us = pre \<and> tr' = us @ Returned e # post"
    with assms(2) show ?thesis by auto
  qed
qed

lemma returnsLate_append_returned:
  assumes "returnsLate tr"
    "Emitted e False \<in> set tr \<longrightarrow> (\<forall>e' b. Emitted e' b \<in> set tr \<longrightarrow> Dispatched e' \<in> set tr)"
  shows "returnsLate (tr @ [Returned e])"
  unfolding returnsLate_def
proof (intro allI impI, elim conjE)
  fix pre post x e' b
  assume eq: "tr @ [Returned e] = pre @ Returned x # post" and em: "Emitted x False \<in> set pre"
    and e': "Emitted e' b \<in> set pre"
  show "Dispatched e' \<in> set pre"
  proof (cases post rule: rev_cases)
    case Nil
    with eq have "pre = tr" "x = e" by auto
    with assms(2) em e' show ?thesis by blast
  next
    case (snoc post' y)
    with eq have "tr = pre @ Returned x # post'" by auto
    with assms(1) em e' show ?thesis unfolding returnsLate_def by blast
  qed
qed

lemma returnsLate_busy_emit:
  assumes "returnsLate tr" "Emitted n False \<notin> set tr"
  shows "returnsLate (tr @ [Emitted n True, Returned n])"
proof -
  have "returnsLate (tr @ [Emitted n True])" using assms(1) by (intro returnsLate_append_other) auto
  then have "returnsLate ((tr @ [Emitted n True]) @ [Returned n])"
    using assms(2) by (intro returnsLate_append_returned) auto
  then show ?thesis by simp
qed

lemma resume_returns:
  assumes "b_initialized s" "processing s" "resume owner pos s = (r, s')"
    "numbered s"
    "covered (trace s) (positionIds pos @ map e_id (eventQueue s)) (nextEventId s)"
    "returnsLate (trace s)"
  shows "returnsLate (trace s')"
  using assms(1,2,3)
proof (cases rule: resume_cases)
  case ends
  with assms(5) have "\<forall>e < nextEventId s. Dispatched e \<in> set (trace s)"
    by (simp add: covered_def)
  with assms(4) have "\<forall>e' b. Emitted e' b \<in> set (trace s) \<longrightarrow> Dispatched e' \<in> set (trace s)"
    by (auto dest: numbered_bound)
  then have "returnsLate (trace s @ [Returned owner])"
    using assms(6) by (intro returnsLate_append_returned) blast+
  with ends show ?thesis by simp
next
  case (skips ev q)
  with assms(6) show ?thesis by (auto intro!: returnsLate_append_other)
next
  case (shifts ev q a)
  with assms(6) show ?thesis by simp
next
  case (calls ev a i rm l)
  with assms(6) show ?thesis by (auto intro!: returnsLate_append_other)
next
  case (finishes ev a i rm s1)
  with assms(6) show ?thesis by (auto simp: sameDrain_def intro!: returnsLate_append_other)
next
  case (handled ev a i rm l acts rm')
  with assms(6) show ?thesis by simp
next
  case (emitted ev a i rm l acts acts' ty d)
  have "Emitted (nextEventId s) False \<notin> set (trace s)"
    using assms(4) by (auto dest: numbered_bound)
  from returnsLate_busy_emit[OF assms(6) this] emitted show ?thesis by simp
next
  case (acted ev a i rm l acts acts')
  with assms(6) show ?thesis by (simp add: sameDrain_def)
qed

lemma accounted_frame: "accounted s \<Longrightarrow> sameDrain s s' \<Longrightarrow> accounted s'"
  by (simp add: accounted_def pendingIds_def sameDrain_def)

lemma accounted_exec:
  assumes "oneDrain s" "accounted s"
  shows "accounted (exec c s)"
proof (cases c)
  case CallInitialize
  show ?thesis
  proof (cases "b_initialized s")
    case True
    with assms CallInitialize show ?thesis by (simp add: initialize_def)
  next
    case False
    with assms(1) have "drains s = []" "eventQueue s = []" by (auto simp: oneDrain_def)
    with False assms(2) CallInitialize show ?thesis
      by (simp add: initialize_def accounted_def pendingIds_def)
  qed
next
  case (CallOn ty h opts)
  with assms exec_quiet[of c ty h opts] show ?thesis by (auto intro: accounted_frame)
next
  case (CallOff i)
  with assms exec_quiet[of c _ _ _ i] show ?thesis by (auto intro: accounted_frame)
next
  case (CallClear t)
  with assms exec_quiet[of c _ _ _ _ t] show ?thesis by (auto intro: accounted_frame)
next
  case (CallEmit ty d)
  from assms(1) show ?thesis
  proof (cases rule: oneDrain_cases)
    case 1
    show ?thesis
    proof (cases "b_initialized s")
      case True
      from assms(2) 1 have "covered (trace s) [] (nextEventId s)" by (simp add: accounted_none)
      from covered_push[OF this, of "[Emitted (nextEventId s) False]"] True 1 CallEmit
      show ?thesis by (auto simp: emit_idle accounted_def pendingIds_def covered_def)
    next
      case False
      with assms CallEmit show ?thesis by (simp add: emit_uninitialized)
    qed
  next
    case (2 owner pos)
    from assms(2) have "covered (trace s) (positionIds pos @ map e_id (eventQueue s)) (nextEventId s)"
      by (simp add: accounted_single[OF 2(1)])
    from covered_push[OF this, of "[Emitted (nextEventId s) True, Returned (nextEventId s)]"]
      2 CallEmit
    show ?thesis by (auto simp: emit_busy accounted_def pendingIds_def covered_def)
  qed
next
  case (Tick k)
  from assms(1) show ?thesis
  proof (cases rule: step_cases[where k = k])
    case idle
    with assms Tick show ?thesis by simp
  next
    case (moves owner pos r s')
    from assms(2) have "covered (trace s) (positionIds pos @ map e_id (eventQueue s)) (nextEventId s)"
      by (simp add: accounted_single[OF moves(1)])
    from resume_accounted[OF moves(3) moves(2) moves(4) this] moves(5) Tick show ?thesis
      by (cases r) (simp_all add: accounted_none accounted_single)
  qed
qed

lemma returns_exec:
  assumes "oneDrain s" "numbered s" "accounted s" "returnsLate (trace s)"
  shows "returnsLate (trace (exec c s))"
proof (cases c)
  case CallInitialize
  with assms show ?thesis by (auto simp: initialize_def)
next
  case (CallOn ty h opts)
  with assms exec_quiet[of c ty h opts _ _ s] show ?thesis by (simp add: sameDrain_def)
next
  case (CallOff i)
  with assms exec_quiet[of c _ _ _ i _ s] show ?thesis by (simp add: sameDrain_def)
next
  case (CallClear t)
  with assms exec_quiet[of c _ _ _ _ t s] show ?thesis by (simp add: sameDrain_def)
next
  case (CallEmit ty d)
  have fresh: "Emitted (nextEventId s) False \<notin> set (trace s)"
    using assms(2) by (auto dest: numbered_bound)
  have idle: "returnsLate (trace s @ [Emitted (nextEventId s) False])"
    using assms(4) by (intro returnsLate_append_other) auto
  from CallEmit assms(4) idle returnsLate_busy_emit[OF assms(4) fresh] show ?thesis
    by (cases "b_initialized s"; cases "processing s")
       (auto simp: emit_idle emit_busy emit_uninitialized)
next
  case (Tick k)
  from assms(1) show ?thesis
  proof (cases rule: step_cases[where k = k])
    case idle
    with assms Tick show ?thesis by simp
  next
    case (moves owner pos r s')
    from assms(3) have "covered (trace s) (positionIds pos @ map e_id (eventQueue s)) (nextEventId s)"
      by (simp add: accounted_single[OF moves(1)])
    from resume_returns[OF moves(3) moves(2) moves(4) assms(2) this assms(4)] moves(5) Tick
    show ?thesis by simp
  qed
qed

lemma busInv_newBus: "busInv newBus"
proof -
  have "accounted newBus" "returnsLate (trace newBus)"
    by (simp_all add: accounted_def returnsLate_def newBus_def)
  then show ?thesis
    by (simp add: busInv_def oneDrain_newBus fifo_newBus numbered_newBus)
qed

lemma busInv_exec: "busInv s \<Longrightarrow> busInv (exec c s)"
  unfolding busInv_def
  using oneDrain_exec fifo_exec numbered_exec accounted_exec returns_exec by blast

lemma busInv_run: "busInv s \<Longrightarrow> busInv (run cs s)"
  by (induction cs arbitrary: s) (auto intro: busInv_exec)


subsection \<open>Order of dispatch across emits\<close>




subsection \<open>When emit returns\<close>




subsection \<open>Listeners registered with once\<close>

text \<open>
  C1, at the failing input. A listener registered with \<open>once: true\<close> whose handler raises,
  and \<open>emit('e')\<close> twice in immediate succession, run to the end of the drain: the
  handler is called for both events (\<open>Invoked 0 0\<close> and \<open>Invoked 0 1\<close>) and the listener is
  still registered afterwards. The claim says it is removed after its first call and
  called exactly once.
\<close>

theorem once_listener_raising_twice:
  "run [CallInitialize, CallOn ''e'' [Raise] onceOptions,
        CallEmit ''e'' [], CallEmit ''e'' [],
        Tick 0, Tick 0, Tick 0, Tick 0, Tick 0, Tick 0, Tick 0, Tick 0, Tick 0] newBus
   = \<lparr>b_initialized = True,
       arrays = [[\<lparr>lid = 0, l_eventType = ''e'', l_handler = [Raise], l_once = True,
                   l_priority = 0\<rparr>]],
       listeners = [(''e'', 0)],
       eventQueue = [], processing = False, nextListenerId = 1, nextEventId = 2, drains = [],
       trace = [Emitted 0 False, Emitted 1 True, Returned 1, Invoked 0 0, Dispatched 0,
                Invoked 0 1, Dispatched 1, Returned 0]\<rparr>"
  by (simp add: bus_eval)

text \<open>
  The same run with a handler that returns normally: the listener is called for the
  first event only and is removed from its array.
\<close>

lemma once_listener_returning_once:
  "run [CallInitialize, CallOn ''e'' [] onceOptions,
        CallEmit ''e'' [], CallEmit ''e'' [],
        Tick 0, Tick 0, Tick 0, Tick 0, Tick 0, Tick 0, Tick 0] newBus
   = \<lparr>b_initialized = True, arrays = [[]], listeners = [(''e'', 0)],
       eventQueue = [], processing = False, nextListenerId = 1, nextEventId = 2, drains = [],
       trace = [Emitted 0 False, Emitted 1 True, Returned 1, Invoked 0 0, Dispatched 0,
                Dispatched 1, Returned 0]\<rparr>"
  by (simp add: bus_eval)

subsection \<open>Order of the listener arrays and of dispatch\<close>

lemma before_trans: "before a b \<Longrightarrow> before b c \<Longrightarrow> before a c"
  by (auto simp: before_def)

lemma set_insertSorted [simp]: "set (insertSorted cmp x ys) = insert x (set ys)"
  by (induction ys) auto

lemma set_sortBy [simp]: "set (sortBy cmp xs) = set xs"
  unfolding sortBy_def by (induction xs) auto

lemma length_insertSorted [simp]: "length (insertSorted cmp x ys) = Suc (length ys)"
  by (induction ys) auto

lemma length_sortBy [simp]: "length (sortBy cmp xs) = length xs"
  unfolding sortBy_def by (induction xs) auto

lemma sorted_insertSorted:
  assumes "sorted_wrt before ys"
    and "\<forall>y \<in> set ys. l_priority x = l_priority y \<longrightarrow> lid x < lid y"
  shows "sorted_wrt before (insertSorted byPriority x ys)"
  using assms
proof (induction ys)
  case Nil
  then show ?case by simp
next
  case (Cons y ys)
  show ?case
  proof (cases "byPriority x y \<le> 0")
    case True
    with Cons.prems have xy: "before x y" by (auto simp: byPriority_def before_def)
    with Cons.prems have "\<forall>z \<in> set ys. before x z" by (auto intro: before_trans)
    with True xy Cons.prems show ?thesis by simp
  next
    case False
    then have "before y x" by (auto simp: byPriority_def before_def)
    with False Cons show ?thesis by auto
  qed
qed

lemma sorted_sortBy:
  "tieOrdered xs \<Longrightarrow> sorted_wrt before (sortBy byPriority xs)"
proof (induction xs)
  case Nil
  then show ?case by (simp add: sortBy_def)
next
  case (Cons x xs)
  then have "sorted_wrt before (sortBy byPriority xs)" by (simp add: tieOrdered_def)
  moreover from Cons.prems
  have "\<forall>y \<in> set (sortBy byPriority xs). l_priority x = l_priority y \<longrightarrow> lid x < lid y"
    by (simp add: tieOrdered_def)
  ultimately have "sorted_wrt before (insertSorted byPriority x (sortBy byPriority xs))"
    by (rule sorted_insertSorted)
  then show ?case by (simp add: sortBy_def)
qed

lemma tieOrdered_snoc:
  "sorted_wrt before ls \<Longrightarrow> \<forall>l \<in> set ls. lid l < lid x \<Longrightarrow> tieOrdered (ls @ [x])"
  unfolding tieOrdered_def
  by (auto simp: sorted_wrt_append before_def intro: sorted_wrt_mono_rel[of ls before])

lemma set_removeFirst: "set (removeFirst i ls) \<subseteq> set ls"
  by (induction ls) auto

lemma sorted_removeFirst: "sorted_wrt before ls \<Longrightarrow> sorted_wrt before (removeFirst i ls)"
  using set_removeFirst by (induction ls) auto

text \<open>Every array of the store keeps a property that a changed array has too.\<close>

lemma store_update:
  "\<forall>ls \<in> set store. P ls \<Longrightarrow> P new \<Longrightarrow> \<forall>ls \<in> set (store[r := new]). P ls"
  using set_update_subset_insert[of store r new] by auto

lemma store_read: "\<forall>ls \<in> set store. P ls \<Longrightarrow> P [] \<Longrightarrow> P (readArray store r)"
  by (simp add: readArray_def)

lemma offScan_result:
  "offScan i store m = Some store' \<Longrightarrow> \<exists>r. store' = store[r := removeFirst i (readArray store r)]"
proof (induction m)
  case Nil
  then show ?case by simp
next
  case (Cons entry m)
  obtain ty r where "entry = (ty, r)" by (cases entry)
  with Cons show ?case by (auto split: if_splits)
qed

lemma prioritySorted_on:
  assumes "prioritySorted s" "on s ty h opts = Inr (i, s')"
  shows "prioritySorted s'"
proof -
  let ?n = "nextListenerId s"
  let ?P = "\<lambda>n ls. sorted_wrt before ls \<and> (\<forall>x \<in> set ls. lid x < n)"
  define l where "l = \<lparr>lid = ?n, l_eventType = ty, l_handler = h,
                 l_once = (case o_once opts of None \<Rightarrow> False | Some b \<Rightarrow> b),
                 l_priority = (case o_priority opts of None \<Rightarrow> 0 | Some p \<Rightarrow> p)\<rparr>"
  from assms(1) have old: "\<forall>ls \<in> set (arrays s). ?P ?n ls"
    and refs: "\<forall>(ty, r) \<in> set (listeners s). r < length (arrays s)"
    by (simp_all add: prioritySorted_def)
  from old have old': "\<forall>ls \<in> set (arrays s). ?P (Suc ?n) ls" by fastforce
  have new: "?P (Suc ?n) (sortBy byPriority (ls @ [l]))" if "?P ?n ls" for ls
  proof -
    from that have "tieOrdered (ls @ [l])" by (intro tieOrdered_snoc) (auto simp: l_def)
    then have "sorted_wrt before (sortBy byPriority (ls @ [l]))" by (rule sorted_sortBy)
    with that show ?thesis by (auto simp: l_def)
  qed
  show ?thesis
  proof (cases "map_of (listeners s) ty")
    case None
    with assms(2) have s': "s' = s\<lparr>arrays := arrays s @ [sortBy byPriority ([] @ [l])],
          listeners := AList.update ty (length (arrays s)) (listeners s),
          nextListenerId := Suc ?n\<rparr>"
      by (auto simp: on_def Let_def update_conv' readArray_def l_def split: if_splits)
    have "?P (Suc ?n) (sortBy byPriority ([] @ [l]))" by (rule new) simp
    with old' have a: "\<forall>ls \<in> set (arrays s'). ?P (nextListenerId s') ls" by (simp add: s')
    have b: "r < length (arrays s')" if "(ty', r) \<in> set (listeners s')" for ty' r
    proof -
      from that have "(ty', r) \<in> set (listeners s) \<or> r = length (arrays s)"
        by (auto simp: s' dest: set_update_cases)
      with refs show ?thesis by (fastforce simp: s')
    qed
    from a b show ?thesis unfolding prioritySorted_def by blast
  next
    case (Some r)
    then have "(ty, r) \<in> set (listeners s)" by (rule map_of_SomeD)
    with refs have r: "r < length (arrays s)" by auto
    with Some assms(2) have s': "s' = s\<lparr>arrays := (arrays s)[r := sortBy byPriority (arrays s ! r @ [l])],
          nextListenerId := Suc ?n\<rparr>"
      by (auto simp: on_def Let_def readArray_def l_def split: if_splits)
    from r have "arrays s ! r \<in> set (arrays s)" by simp
    with old have "?P ?n (arrays s ! r)" by blast
    then have "?P (Suc ?n) (sortBy byPriority (arrays s ! r @ [l]))" by (rule new)
    from store_update[where P = "?P (Suc ?n)", OF old' this]
    have a: "\<forall>ls \<in> set (arrays s'). ?P (nextListenerId s') ls" by (simp add: s')
    from refs have b: "\<forall>(ty, r) \<in> set (listeners s'). r < length (arrays s')" by (simp add: s')
    from a b show ?thesis unfolding prioritySorted_def by blast
  qed
qed

lemma prioritySorted_off:
  assumes "prioritySorted s" "off s i = Inr (found, s')"
  shows "prioritySorted s'"
proof (cases "offScan i (arrays s) (listeners s)")
  case None
  with assms show ?thesis by (auto simp: off_def split: if_splits)
next
  case (Some store)
  let ?P = "\<lambda>ls. sorted_wrt before ls \<and> (\<forall>x \<in> set ls. lid x < nextListenerId s)"
  from Some assms(2) have s': "s' = s\<lparr>arrays := store\<rparr>" by (auto simp: off_def split: if_splits)
  from offScan_result[OF Some] obtain r where
    store: "store = (arrays s)[r := removeFirst i (readArray (arrays s) r)]" by blast
  from assms(1) have old: "\<forall>ls \<in> set (arrays s). ?P ls" by (simp add: prioritySorted_def)
  then have "?P (readArray (arrays s) r)" by (rule store_read) simp
  then have "?P (removeFirst i (readArray (arrays s) r))"
    using set_removeFirst[of i "readArray (arrays s) r"] by (auto intro: sorted_removeFirst)
  from store_update[where P = ?P, OF old this] have "\<forall>ls \<in> set store. ?P ls" by (simp add: store)
  with assms(1) show ?thesis by (simp add: prioritySorted_def s' store)
qed

lemma prioritySorted_removeAll: "prioritySorted s \<Longrightarrow> prioritySorted (removeAll is s)"
  unfolding removeAll_def
proof (induction "is" arbitrary: s)
  case Nil
  then show ?case by simp
next
  case (Cons i "is")
  show ?case
  proof (cases "off s i")
    case (Inl e)
    with Cons show ?thesis by simp
  next
    case (Inr p)
    obtain found s' where p: "p = (found, s')" by (cases p)
    with Inr Cons.prems have "prioritySorted s'" by (auto intro: prioritySorted_off)
    with Cons.IH Inr p show ?thesis by simp
  qed
qed

lemma prioritySorted_frame:
  "prioritySorted s \<Longrightarrow> arrays s' = arrays s \<Longrightarrow> listeners s' = listeners s \<Longrightarrow>
   nextListenerId s' = nextListenerId s \<Longrightarrow> prioritySorted s'"
  by (simp add: prioritySorted_def)

lemma emit_listeners:
  "emit s ty d = Inr s' \<Longrightarrow>
   arrays s' = arrays s \<and> listeners s' = listeners s \<and> nextListenerId s' = nextListenerId s"
  by (auto simp: emit_def processQueue_def Let_def split: if_splits)

lemma prioritySorted_emit: "prioritySorted s \<Longrightarrow> emit s ty d = Inr s' \<Longrightarrow> prioritySorted s'"
  using emit_listeners prioritySorted_frame by blast

lemma set_delete_subset: "set (AList.delete k al) \<subseteq> set al"
  by (induction al) auto

lemma prioritySorted_clearListeners:
  assumes "prioritySorted s" "clearListeners s ty = Inr (n, s')"
  shows "prioritySorted s'"
  using assms set_delete_subset[of _ "listeners s"]
  by (fastforce simp: clearListeners_def Let_def prioritySorted_def
      split: if_splits option.splits)

lemma prioritySorted_act: "prioritySorted s \<Longrightarrow> act a s = Some s' \<Longrightarrow> prioritySorted s'"
  by (cases a)
     (auto split: sum.splits
           intro: prioritySorted_on prioritySorted_off prioritySorted_clearListeners
                  prioritySorted_emit)

lemma prioritySorted_resume:
  assumes "prioritySorted s" "resume owner pos s = (r, s')"
  shows "prioritySorted s'"
proof (cases pos)
  case LoopHead
  with assms show ?thesis
    by (auto split: list.splits option.splits if_splits intro: prioritySorted_frame)
next
  case (NextListener ev a i rm)
  from prioritySorted_removeAll[OF assms(1), of rm] assms NextListener show ?thesis
    by (auto simp: Let_def split: if_splits intro: prioritySorted_frame)
next
  case (InHandler ev a i rm l acts)
  with assms show ?thesis
    by (cases acts) (auto split: option.splits intro: prioritySorted_act)
qed

lemma prioritySorted_step: "prioritySorted s \<Longrightarrow> prioritySorted (step k s)"
proof (cases "k < length (drains s)")
  case False
  then show "prioritySorted s \<Longrightarrow> ?thesis" by (simp add: step_def)
next
  case True
  assume a: "prioritySorted s"
  obtain owner pos where f: "drains s ! k = (owner, pos)" by (cases "drains s ! k")
  obtain r s' where r: "resume owner pos s = (r, s')" by (cases "resume owner pos s")
  from prioritySorted_resume[OF a r] have "prioritySorted s'" .
  then show ?thesis using True f r
    by (cases r) (auto simp: step_def intro: prioritySorted_frame)
qed

lemma prioritySorted_exec:
  assumes "prioritySorted s"
  shows "prioritySorted (exec c s)"
proof (cases c)
  case CallInitialize
  with assms show ?thesis by (auto simp: initialize_def prioritySorted_def)
next
  case (CallOn ty h opts)
  with assms show ?thesis by (auto split: sum.splits intro: prioritySorted_on)
next
  case (CallOff i)
  with assms show ?thesis by (auto split: sum.splits intro: prioritySorted_off)
next
  case (CallClear ty)
  with assms show ?thesis by (auto split: sum.splits intro: prioritySorted_clearListeners)
next
  case (CallEmit ty d)
  with assms show ?thesis by (auto split: sum.splits intro: prioritySorted_emit)
next
  case (Tick k)
  with assms show ?thesis by (auto intro: prioritySorted_step)
qed

lemma prioritySorted_newBus: "prioritySorted newBus"
  by (simp add: prioritySorted_def newBus_def)

lemma prioritySorted_run: "prioritySorted s \<Longrightarrow> prioritySorted (run cs s)"
  by (induction cs arbitrary: s) (auto intro: prioritySorted_exec)

text \<open>
  In every run from a new bus the array of every event type is sorted by descending
  priority, listeners of equal priority in the order of their registration, and a call
  of \<open>on\<close> leaves the array of its type as the stable sort of the old array with the new
  listener pushed at its end.
\<close>

lemma listeners_sorted:
  assumes "run calls newBus = s" "getListeners s ty = Inr ls"
  shows "sorted_wrt before ls"
proof -
  from prioritySorted_run[OF prioritySorted_newBus, of calls] assms(1)
  have "prioritySorted s" by simp
  then have "\<forall>ls \<in> set (arrays s). sorted_wrt before ls" by (simp add: prioritySorted_def)
  then have "sorted_wrt before (readArray (arrays s) r)" for r by (rule store_read) simp
  with assms(2) show ?thesis
    by (auto simp: getListeners_def listenersOf_def split: if_splits option.splits)
qed

lemma priorities_sorted:
  "map l_priority (listenersOf (run priorityCalls newBus) ''a'') = [5, 5, 3, 1] \<and>
   map lid (listenersOf (run priorityCalls newBus) ''a'') = [1, 3, 2, 0]"
  by (simp add: priorityCalls_def bus_eval)


lemma invokedFor_simps [simp]:
  "invokedFor e [] = []"
  "invokedFor e (tr @ tr') = invokedFor e tr @ invokedFor e tr'"
  "invokedFor e (Invoked l e' # tr) = (if e' = e then l # invokedFor e tr else invokedFor e tr)"
  "invokedFor e (Emitted e' b # tr) = invokedFor e tr"
  "invokedFor e (Dispatched e' # tr) = invokedFor e tr"
  "invokedFor e (Returned e' # tr) = invokedFor e tr"
  by (simp_all add: invokedFor_def map_filter_def)

lemma invokedFor_fresh: "\<forall>x \<in> set (invokedIds tr). x < e \<Longrightarrow> invokedFor e tr = []"
proof (induction tr)
  case Nil
  then show ?case by simp
next
  case (Cons a tr)
  then show ?case by (cases a) auto
qed

lemma run_append: "run (xs @ ys) s = run ys (run xs s)"
  by (induction xs arbitrary: s) auto

lemma run_ticks_add:
  "run (replicate (n + m) (Tick 0)) s = run (replicate m (Tick 0)) (run (replicate n (Tick 0)) s)"
  by (simp add: replicate_add run_append)

lemma step_one:
  assumes "drains s = [(owner, pos)]" "processing s" "b_initialized s"
    "resume owner pos s = (r, s')"
  shows "step 0 s = s'\<lparr>drains := (case r of None \<Rightarrow> [] | Some p \<Rightarrow> [(owner, p)])\<rparr>"
proof -
  from resume_structure[OF assms(3,2,4)] assms(1) have "drains s' = [(owner, pos)]" by simp
  with assms show ?thesis by (cases r) (simp_all add: step_def)
qed

text \<open>
  A handler that neither registers nor removes listeners runs to its end (or to its
  raise) in finitely many steps, and leaves the listener arrays as they are.
\<close>

lemma handler_finishes:
  assumes "drains s = [(owner, InHandler ev r i rm l acts)]" "processing s" "b_initialized s"
    "\<forall>a \<in> set acts. keepsListeners a"
  shows "\<exists>n rm'. drains (run (replicate n (Tick 0)) s) = [(owner, NextListener ev r i rm')] \<and>
           processing (run (replicate n (Tick 0)) s) \<and>
           b_initialized (run (replicate n (Tick 0)) s) \<and>
           arrays (run (replicate n (Tick 0)) s) = arrays s \<and>
           invokedFor e (trace (run (replicate n (Tick 0)) s)) = invokedFor e (trace s)"
  using assms
proof (induction acts arbitrary: s)
  case Nil
  have "resume owner (InHandler ev r i rm l []) s =
      (Some (NextListener ev r i (if l_once l then rm @ [lid l] else rm)), s)" by simp
  from step_one[OF Nil(1,2,3) this]
  have "step 0 s = s\<lparr>drains := [(owner, NextListener ev r i (if l_once l then rm @ [lid l] else rm))]\<rparr>"
    by simp
  with Nil show ?case
    by (intro exI[of _ "Suc 0"] exI[of _ "if l_once l then rm @ [lid l] else rm"]) simp
next
  case (Cons a acts)
  show ?case
  proof (cases a)
    case Raise
    then have "resume owner (InHandler ev r i rm l (a # acts)) s = (Some (NextListener ev r i rm), s)"
      by simp
    from step_one[OF Cons.prems(1,2,3) this]
    have "step 0 s = s\<lparr>drains := [(owner, NextListener ev r i rm)]\<rparr>" by simp
    with Cons.prems show ?thesis
      by (intro exI[of _ "Suc 0"] exI[of _ rm]) simp
  next
    case (Emit ty d)
    define s1 where "s1 =
      s\<lparr>eventQueue := eventQueue s @ [\<lparr>e_type = ty, e_data = d, e_id = nextEventId s\<rparr>],
        nextEventId := nextEventId s + 1,
        trace := trace s @ [Emitted (nextEventId s) True, Returned (nextEventId s)],
        drains := [(owner, InHandler ev r i rm l acts)]\<rparr>"
    from Emit Cons.prems(2,3)
    have "resume owner (InHandler ev r i rm l (a # acts)) s =
      (Some (InHandler ev r i rm l acts),
       s\<lparr>eventQueue := eventQueue s @ [\<lparr>e_type = ty, e_data = d, e_id = nextEventId s\<rparr>],
         nextEventId := nextEventId s + 1,
         trace := trace s @ [Emitted (nextEventId s) True, Returned (nextEventId s)]\<rparr>)"
      by (simp add: emit_busy)
    from step_one[OF Cons.prems(1,2,3) this] have s1: "step 0 s = s1" by (simp add: s1_def)
    have "\<exists>n rm'. drains (run (replicate n (Tick 0)) s1) = [(owner, NextListener ev r i rm')] \<and>
           processing (run (replicate n (Tick 0)) s1) \<and>
           b_initialized (run (replicate n (Tick 0)) s1) \<and>
           arrays (run (replicate n (Tick 0)) s1) = arrays s1 \<and>
           invokedFor e (trace (run (replicate n (Tick 0)) s1)) = invokedFor e (trace s1)"
      using Cons.prems by (intro Cons.IH) (simp_all add: s1_def)
    then obtain n rm' where r:
      "drains (run (replicate n (Tick 0)) s1) = [(owner, NextListener ev r i rm')]"
      "processing (run (replicate n (Tick 0)) s1)"
      "b_initialized (run (replicate n (Tick 0)) s1)"
      "arrays (run (replicate n (Tick 0)) s1) = arrays s1"
      "invokedFor e (trace (run (replicate n (Tick 0)) s1)) = invokedFor e (trace s1)" by blast
    have "run (replicate (Suc n) (Tick 0)) s = run (replicate n (Tick 0)) s1" by (simp add: s1)
    moreover have "arrays s1 = arrays s" "invokedFor e (trace s1) = invokedFor e (trace s)"
      by (simp_all add: s1_def)
    ultimately show ?thesis using r by (intro exI[of _ "Suc n"] exI[of _ rm']) simp
  next
    case (On ty h opts)
    with Cons.prems(4) show ?thesis by simp
  next
    case (Off i)
    with Cons.prems(4) show ?thesis by simp
  next
    case (ClearListeners ty)
    with Cons.prems(4) show ?thesis by simp
  qed
qed

text \<open>
  The loop of \<open>_processEvent\<close> calls the handlers of the rest of its array in order, when
  none of them registers or removes a listener.
\<close>

lemma listeners_loop:
  assumes "drains s = [(owner, NextListener ev r i rm)]" "processing s" "b_initialized s"
    "\<forall>l \<in> set (drop i (readArray (arrays s) r)). \<forall>a \<in> set (l_handler l). keepsListeners a"
    "k = length (readArray (arrays s) r) - i"
  shows "\<exists>n. invokedFor (e_id ev) (trace (run (replicate n (Tick 0)) s)) =
               invokedFor (e_id ev) (trace s) @ map lid (drop i (readArray (arrays s) r)) \<and>
             Dispatched (e_id ev) \<in> set (trace (run (replicate n (Tick 0)) s))"
  using assms
proof (induction k arbitrary: s i rm)
  case 0
  then have past: "\<not> i < length (readArray (arrays s) r)" by simp
  then have "resume owner (NextListener ev r i rm) s =
      (Some LoopHead, (removeAll rm s)\<lparr>trace := trace (removeAll rm s) @ [Dispatched (e_id ev)]\<rparr>)"
    by (simp add: Let_def)
  from step_one[OF 0(1,2,3) this] removeAll_frame[of s rm]
  have "trace (step 0 s) = trace s @ [Dispatched (e_id ev)]" by (simp add: sameDrain_def)
  with past show ?case by (intro exI[of _ "Suc 0"]) simp
next
  case (Suc k)
  let ?arr = "readArray (arrays s) r"
  let ?l = "?arr ! i"
  from Suc.prems(5) have within: "i < length ?arr" by simp
  define s1 where "s1 = s\<lparr>trace := trace s @ [Invoked (lid ?l) (e_id ev)],
      drains := [(owner, InHandler ev r (i + 1) rm ?l (l_handler ?l))]\<rparr>"
  from within have "resume owner (NextListener ev r i rm) s =
      (Some (InHandler ev r (i + 1) rm ?l (l_handler ?l)),
       s\<lparr>trace := trace s @ [Invoked (lid ?l) (e_id ev)]\<rparr>)"
    by (simp add: Let_def)
  from step_one[OF Suc.prems(1,2,3) this] have s1: "step 0 s = s1" by (simp add: s1_def)
  from within have split: "drop i ?arr = ?l # drop (Suc i) ?arr" by (simp add: Cons_nth_drop_Suc)
  with Suc.prems(4) have quiet: "\<forall>a \<in> set (l_handler ?l). keepsListeners a"
    and rest: "\<forall>l \<in> set (drop (Suc i) ?arr). \<forall>a \<in> set (l_handler l). keepsListeners a"
    by simp_all
  have "\<exists>n rm'. drains (run (replicate n (Tick 0)) s1) = [(owner, NextListener ev r (i + 1) rm')] \<and>
           processing (run (replicate n (Tick 0)) s1) \<and>
           b_initialized (run (replicate n (Tick 0)) s1) \<and>
           arrays (run (replicate n (Tick 0)) s1) = arrays s1 \<and>
           invokedFor (e_id ev) (trace (run (replicate n (Tick 0)) s1)) =
             invokedFor (e_id ev) (trace s1)"
    using Suc.prems(2,3) quiet by (intro handler_finishes) (simp_all add: s1_def)
  then obtain n rm' where r:
    "drains (run (replicate n (Tick 0)) s1) = [(owner, NextListener ev r (i + 1) rm')]"
    "processing (run (replicate n (Tick 0)) s1)"
    "b_initialized (run (replicate n (Tick 0)) s1)"
    "arrays (run (replicate n (Tick 0)) s1) = arrays s1"
    "invokedFor (e_id ev) (trace (run (replicate n (Tick 0)) s1)) = invokedFor (e_id ev) (trace s1)"
    by blast
  define s2 where "s2 = run (replicate n (Tick 0)) s1"
  have a2: "arrays s2 = arrays s" using r(4) by (simp add: s2_def s1_def)
  have "\<exists>m. invokedFor (e_id ev) (trace (run (replicate m (Tick 0)) s2)) =
               invokedFor (e_id ev) (trace s2) @ map lid (drop (i + 1) (readArray (arrays s2) r)) \<and>
             Dispatched (e_id ev) \<in> set (trace (run (replicate m (Tick 0)) s2))"
    using r(1,2,3) rest Suc.prems(5) by (intro Suc.IH) (simp_all add: s2_def[symmetric] a2)
  then obtain m where t:
    "invokedFor (e_id ev) (trace (run (replicate m (Tick 0)) s2)) =
       invokedFor (e_id ev) (trace s2) @ map lid (drop (Suc i) ?arr)"
    "Dispatched (e_id ev) \<in> set (trace (run (replicate m (Tick 0)) s2))"
    by (auto simp: a2)
  have all: "run (replicate (Suc (n + m)) (Tick 0)) s = run (replicate m (Tick 0)) s2"
    by (simp add: s1 s2_def run_ticks_add)
  have "invokedFor (e_id ev) (trace s2) = invokedFor (e_id ev) (trace s) @ [lid ?l]"
    using r(5) by (simp add: s2_def s1_def)
  with t(1) split have "invokedFor (e_id ev) (trace (run (replicate m (Tick 0)) s2)) =
       invokedFor (e_id ev) (trace s) @ map lid (drop i ?arr)" by simp
  with t(2) all show ?case by (intro exI[of _ "Suc (n + m)"]) simp
qed

text \<open>
  An event emitted while no drain is in progress, with the drain loop then left to run:
  when no handler of its type registers or removes a listener, the handlers of its type
  are called in the order of their array, and the dispatch ends after finitely many
  steps.
\<close>

lemma dispatch_in_array_order:
  assumes "run calls newBus = s" "b_initialized s" "drains s = []"
    "\<forall>l \<in> set (listenersOf s ty). \<forall>a \<in> set (l_handler l). keepsListeners a"
  shows "\<exists>n s1. emit s ty d = Inr s1 \<and>
           invokedFor (nextEventId s) (trace (run (replicate n (Tick 0)) s1)) =
             map lid (listenersOf s ty) \<and>
           Dispatched (nextEventId s) \<in> set (trace (run (replicate n (Tick 0)) s1))"
proof -
  from busInv_run[OF busInv_newBus, of calls] assms(1)
  have "oneDrain s" "fifo s" by (simp_all add: busInv_def)
  with assms(3) have idle: "\<not> processing s" "eventQueue s = []"
    and bound: "\<forall>x \<in> set (invokedIds (trace s)). x < nextEventId s"
    by (auto simp: oneDrain_def fifo_def)
  let ?ev = "\<lparr>e_type = ty, e_data = d, e_id = nextEventId s\<rparr>"
  define s1 where "s1 = s\<lparr>eventQueue := eventQueue s @ [?ev],
                nextEventId := nextEventId s + 1,
                trace := trace s @ [Emitted (nextEventId s) False],
                processing := True,
                drains := drains s @ [(nextEventId s, LoopHead)]\<rparr>"
  have e: "emit s ty d = Inr s1" using assms(2) idle by (simp add: emit_idle s1_def)
  have d1: "drains s1 = [(nextEventId s, LoopHead)]" "processing s1" "b_initialized s1"
    and q1: "eventQueue s1 = [?ev]" and l1: "listeners s1 = listeners s" "arrays s1 = arrays s"
    and t1: "trace s1 = trace s @ [Emitted (nextEventId s) False]"
    using assms(2,3) idle by (simp_all add: s1_def)
  have fresh: "invokedFor (nextEventId s) (trace s) = []"
    using bound by (rule invokedFor_fresh)
  show ?thesis
  proof (cases "listenersOf s ty = []")
    case True
    then have "resume (nextEventId s) LoopHead s1 =
        (Some LoopHead, s1\<lparr>eventQueue := [], trace := trace s1 @ [Dispatched (nextEventId s)]\<rparr>)"
      using q1 l1 by (auto simp: listenersOf_def split: option.splits)
    from step_one[OF d1 this] have "trace (step 0 s1) = trace s1 @ [Dispatched (nextEventId s)]"
      by simp
    then have "invokedFor (nextEventId s) (trace (run (replicate (Suc 0) (Tick 0)) s1)) =
             map lid (listenersOf s ty) \<and>
           Dispatched (nextEventId s) \<in> set (trace (run (replicate (Suc 0) (Tick 0)) s1))"
      using True fresh t1 by simp
    with e show ?thesis by blast
  next
    case False
    then obtain r where r: "map_of (listeners s) ty = Some r" "listenersOf s ty = readArray (arrays s) r"
      by (auto simp: listenersOf_def split: option.splits)
    define s2 where "s2 = s1\<lparr>eventQueue := [], drains := [(nextEventId s, NextListener ?ev r 0 [])]\<rparr>"
    from False r have "resume (nextEventId s) LoopHead s1 =
        (Some (NextListener ?ev r 0 []), s1\<lparr>eventQueue := []\<rparr>)"
      using q1 l1 by simp
    from step_one[OF d1 this] have s2: "step 0 s1 = s2" by (simp add: s2_def)
    have a2: "arrays s2 = arrays s" "trace s2 = trace s1" using l1 by (simp_all add: s2_def)
    have "\<exists>n. invokedFor (e_id ?ev) (trace (run (replicate n (Tick 0)) s2)) =
               invokedFor (e_id ?ev) (trace s2) @ map lid (drop 0 (readArray (arrays s2) r)) \<and>
             Dispatched (e_id ?ev) \<in> set (trace (run (replicate n (Tick 0)) s2))"
      using d1 assms(4) r(2)
      by (intro listeners_loop[of _ "nextEventId s" _ _ _ "[]"]) (simp_all add: s2_def l1)
    then obtain n where t:
      "invokedFor (nextEventId s) (trace (run (replicate n (Tick 0)) s2)) =
         invokedFor (nextEventId s) (trace s2) @ map lid (listenersOf s ty)"
      "Dispatched (nextEventId s) \<in> set (trace (run (replicate n (Tick 0)) s2))"
      by (auto simp: a2 r(2))
    have "run (replicate (Suc n) (Tick 0)) s1 = run (replicate n (Tick 0)) s2" by (simp add: s2)
    moreover from t(1) fresh t1 a2
    have "invokedFor (nextEventId s) (trace (run (replicate n (Tick 0)) s2)) = map lid (listenersOf s ty)"
      by simp
    ultimately show ?thesis using t(2) e by (intro exI[of _ "Suc n"] exI[of _ s1]) simp
  qed
qed

text \<open>
  C6, at the failing input. Two listeners are registered for \<open>'e'\<close>, with priorities 5
  and 1; the handler of the first unsubscribes its own listener. After the two
  registrations the array is in the order of the claim: listener 0 (priority 5), then
  listener 1 (priority 1). One \<open>emit('e')\<close>, run to the end of the drain: only the handler
  of listener 0 is called (\<open>Invoked 0 0\<close>). Its \<open>off\<close> splices the array that the \<open>for\<close>
  loop of \<open>_processEvent\<close> is walking, listener 1 moves to index 0, and the loop, which
  goes on at index 1, ends. The claim says the dispatch calls the listeners of the
  array in order, listener 0 and then listener 1.
\<close>

theorem unsubscribing_handler_skips_next_listener:
  "getListeners (run unsubscribeCalls newBus) ''e''
     = Inr [\<lparr>lid = 0, l_eventType = ''e'', l_handler = [Off 0], l_once = False, l_priority = 5\<rparr>,
            \<lparr>lid = 1, l_eventType = ''e'', l_handler = [], l_once = False, l_priority = 1\<rparr>] \<and>
   run (unsubscribeCalls @ [CallEmit ''e'' [], Tick 0, Tick 0, Tick 0, Tick 0, Tick 0, Tick 0]) newBus
     = \<lparr>b_initialized = True,
         arrays = [[\<lparr>lid = 1, l_eventType = ''e'', l_handler = [], l_once = False,
                     l_priority = 1\<rparr>]],
         listeners = [(''e'', 0)],
         eventQueue = [], processing = False, nextListenerId = 2, nextEventId = 1, drains = [],
         trace = [Emitted 0 False, Invoked 0 0, Dispatched 0, Returned 0]\<rparr>"
  by (simp add: unsubscribeCalls_def bus_eval)

end
